theory Spec2Isabelle
  imports Complex_Main
begin

section \<open>The RNNoise audio worklet processor\<close>

text \<open>
  The processor of \<^verbatim>\<open>rnnoise-processor.js\<close> (class \<^verbatim>\<open>RnnoiseProcessor\<close>) buffers the
  samples it receives, hands full frames of \<^verbatim>\<open>frameSize\<close> samples to the RNNoise
  transform, copies the transformed frames to its output channel and posts the
  voice activity score of every \<^verbatim>\<open>vadInterval\<close>-th frame to its message port.

  Modelling decisions.
  \<^item> A \<^verbatim>\<open>Float32Array\<close> is a list of samples. The code never computes with a sample;
    it copies samples and, in two places, writes \<^verbatim>\<open>x || 0\<close>. A sample is therefore
    a number or NaN, NaN being the one number that \<^verbatim>\<open>x || 0\<close> changes (both signed
    zeros are the number 0 here).
  \<^item> The DenoiseState object is a hidden state of type \<open>'d\<close> and its method
    \<^verbatim>\<open>processFrame\<close>, a function of that state and of the frame buffer, which returns
    the new contents of the buffer and the score, or throws.
  \<^item> An exception of JavaScript is a value \<open>Inl e\<close>; a call that never returns is
    \<open>None\<close>.
  \<^item> The counter \<^verbatim>\<open>frameCounter\<close> is a natural number (the double of the code counts
    exactly up to \<open>2 ^ 53\<close>).
\<close>

subsection \<open>Samples and typed arrays\<close>

datatype sample = Num real | NaN

datatype js_error = RangeError | TypeError

text \<open>\<^verbatim>\<open>x || 0\<close> on a sample: the falsy numbers are 0 and NaN.\<close>

fun or_zero :: "sample \<Rightarrow> sample" where
  "or_zero NaN = Num 0"
| "or_zero (Num r) = Num r"

text \<open>\<^verbatim>\<open>xs[i] || 0\<close>: an index out of range reads \<^verbatim>\<open>undefined\<close>, which is falsy.\<close>

definition index_or_zero :: "sample list \<Rightarrow> nat \<Rightarrow> sample" where
  "index_or_zero xs i = (if i < length xs then or_zero (xs ! i) else Num 0)"

text \<open>
  \<^verbatim>\<open>dst.set(src, off)\<close> where \<open>src\<close> fits into \<open>dst\<close> at \<open>off\<close> (JavaScript raises
  a RangeError where it does not; every call of the processor fits, see
  \<open>loop_body\<close>).
\<close>

definition ta_set :: "'a list \<Rightarrow> 'a list \<Rightarrow> nat \<Rightarrow> 'a list" where
  "ta_set dst src off = take off dst @ src @ drop (off + length src) dst"

text \<open>\<^verbatim>\<open>xs.subarray(b, e)\<close> for \<open>0 \<le> b\<close>, \<open>0 \<le> e\<close>: the indices are clamped to the length.\<close>

definition subarray :: "'a list \<Rightarrow> nat \<Rightarrow> nat \<Rightarrow> 'a list" where
  "subarray xs b e = drop b (take e xs)"

text \<open>
  \<^verbatim>\<open>a % b === 0\<close> on integers: the remainder has the sign of the dividend, and
  \<^verbatim>\<open>a % 0\<close> is NaN (\<open>None\<close>), which is not \<^verbatim>\<open>=== 0\<close>.
\<close>

definition js_rem :: "int \<Rightarrow> int \<Rightarrow> int option" where
  "js_rem a b = (if b = 0 then None else Some (sgn a * (\<bar>a\<bar> mod \<bar>b\<bar>)))"

subsection \<open>The transform\<close>

datatype pf_result = Returns "sample list" real | Throws

type_synonym 'd processFrame = "'d \<Rightarrow> sample list \<Rightarrow> 'd \<times> pf_result"

text \<open>
  \<^verbatim>\<open>processFrame\<close> works in place: it cannot change the length of the buffer it is
  given. \<open>in_place old new\<close> is the buffer \<open>old\<close> after its contents were replaced
  by \<open>new\<close>.
\<close>

definition in_place :: "sample list \<Rightarrow> sample list \<Rightarrow> sample list" where
  "in_place old new = take (length old) (new @ drop (length new) old)"

subsection \<open>The constructor\<close>

record 'd processorOptions =
  denoiseState :: "'d option"
  opt_frameSize :: "int option"
  opt_vadInterval :: "int option"

record 'd processor =
  state :: "'d option"
  frameSize :: nat
  vadInterval :: int
  buf :: "sample list"
  work :: "sample list"
  frameCounter :: nat

text \<open>
  \<^verbatim>\<open>constructor(options)\<close>: \<open>None\<close> is \<^verbatim>\<open>options.processorOptions\<close> being null or
  undefined, and a field that is \<open>None\<close> takes its default. Nothing is validated;
  \<^verbatim>\<open>new Float32Array(this.frameSize)\<close> raises a RangeError on a negative length, so
  that a processor that exists has a frame size that is a natural number.
\<close>

definition construct :: "'d processorOptions option \<Rightarrow> js_error + 'd processor" where
  "construct options =
     (let po = (case options of
                  None \<Rightarrow> \<lparr>denoiseState = None, opt_frameSize = None, opt_vadInterval = None\<rparr>
                | Some given \<Rightarrow> given);
          fs = (case opt_frameSize po of None \<Rightarrow> 480 | Some n \<Rightarrow> n);
          vi = (case opt_vadInterval po of None \<Rightarrow> 10 | Some n \<Rightarrow> n)
      in if fs < 0 then Inl RangeError
         else Inr \<lparr>state = denoiseState po, frameSize = nat fs, vadInterval = vi,
                   buf = [], work = replicate (nat fs) (Num 0), frameCounter = 0\<rparr>)"

subsection \<open>The frame loop of process\<close>

text \<open>
  The variables of the \<^verbatim>\<open>while\<close> loop: the processor, the output channel, the
  index \<^verbatim>\<open>outIndex\<close> and the messages posted to the port so far.
\<close>

record 'd loop_state =
  proc :: "'d processor"
  outCh0 :: "sample list"
  outIndex :: nat
  port :: "real list"

definition loop_guard :: "'d loop_state \<Rightarrow> bool" where
  "loop_guard st \<longleftrightarrow>
     frameSize (proc st) \<le> length (buf (proc st)) \<and> outIndex st < length (outCh0 st)"

text \<open>
  One iteration. The calls of \<^verbatim>\<open>set\<close> fit: the frame has \<open>frameSize\<close> samples under
  the guard and \<^verbatim>\<open>work\<close> has that length, \<open>copyLen\<close> is at most the room left in
  the output, and \<^verbatim>\<open>nextBuf\<close> has the length of what it receives. A missing state
  or method makes \<^verbatim>\<open>this.state.processFrame\<close> throw a TypeError inside the
  \<^verbatim>\<open>try\<close>, which is caught like a failure of the transform. Whatever a call
  that throws has written to \<^verbatim>\<open>work\<close> before, the \<^verbatim>\<open>catch\<close> block writes every
  sample of \<^verbatim>\<open>work\<close> again from the buffer, which still holds the frame.
\<close>

definition loop_body :: "'d processFrame \<Rightarrow> 'd loop_state \<Rightarrow> 'd loop_state" where
  "loop_body pf st =
     (let p = proc st;
          work1 = ta_set (work p) (subarray (buf p) 0 (frameSize p)) 0;
          fallback = map (index_or_zero (buf p)) [0..<length work1];
          (state', work2, vad) =
            (case state p of
               None \<Rightarrow> (None, fallback, 0)
             | Some d \<Rightarrow>
                 (case pf d work1 of
                    (d', Returns ys v) \<Rightarrow> (Some d', in_place work1 ys, v)
                  | (d', Throws) \<Rightarrow> (Some d', fallback, 0)));
          copyLen = min (length work2) (length (outCh0 st) - outIndex st);
          out' = ta_set (outCh0 st) (subarray work2 0 copyLen) (outIndex st);
          outIndex' = outIndex st + copyLen;
          nextBuf = subarray (buf p) (frameSize p) (length (buf p));
          fc = frameCounter p + 1;
          port' = (if js_rem (int fc) (vadInterval p) = Some 0 then port st @ [vad]
                   else port st)
      in \<lparr>proc = p\<lparr>state := state', buf := nextBuf, work := work2, frameCounter := fc\<rparr>,
          outCh0 = out', outIndex = outIndex', port = port'\<rparr>)"

partial_function (option) drain :: "'d processFrame \<Rightarrow> 'd loop_state \<Rightarrow> 'd loop_state option"
where
  "drain pf st = (if loop_guard st then drain pf (loop_body pf st) else Some st)"

declare drain.simps [code]

subsection \<open>process\<close>

text \<open>
  What a call of \<^verbatim>\<open>process\<close> leaves behind: the processor, the array
  \<^verbatim>\<open>outputs[0]\<close>, the messages posted during the call, and \<open>written\<close>, the final
  value of \<^verbatim>\<open>outIndex\<close>: the number of transformed samples copied to the output
  channel (0 on the paths that do not reach the loop).
\<close>

record 'd process_result =
  processor_after :: "'d processor"
  output_after :: "sample list list option"
  posted :: "real list"
  written :: nat

text \<open>
  \<open>input\<close> is \<^verbatim>\<open>inputs[0]\<close> and \<open>output\<close> is \<^verbatim>\<open>outputs[0]\<close>, \<open>None\<close> when
  undefined; each is an array of channels.
\<close>

definition process ::
  "'d processFrame \<Rightarrow> 'd processor \<Rightarrow> sample list list option \<Rightarrow> sample list list option
     \<Rightarrow> (js_error + 'd process_result) option" where
  "process pf p input output =
     (case (case input of None \<Rightarrow> None | Some [] \<Rightarrow> None | Some (c # cs) \<Rightarrow> Some c) of
        None \<Rightarrow>
          Some (Inr \<lparr>processor_after = p,
                     output_after =
                       (case output of
                          Some (o0 # os) \<Rightarrow> Some (replicate (length o0) (Num 0) # os)
                        | _ \<Rightarrow> output),
                     posted = [], written = 0\<rparr>)
      | Some inCh0 \<Rightarrow>
          (case output of
             None \<Rightarrow> Some (Inl TypeError)
           | Some [] \<Rightarrow>
               Some (Inr \<lparr>processor_after = p, output_after = output, posted = [],
                          written = 0\<rparr>)
           | Some (o0 # os) \<Rightarrow>
               (case state p of
                  None \<Rightarrow>
                    Some (Inr \<lparr>processor_after = p,
                               output_after =
                                 Some (map (index_or_zero inCh0) [0..<length o0] # os),
                               posted = [], written = 0\<rparr>)
                | Some d \<Rightarrow>
                    (case drain pf \<lparr>proc = p\<lparr>buf := buf p @ inCh0\<rparr>, outCh0 = o0,
                                     outIndex = 0, port = []\<rparr> of
                       None \<Rightarrow> None
                     | Some st \<Rightarrow>
                         Some (Inr \<lparr>processor_after = proc st,
                                    output_after =
                                      Some ((take (outIndex st) (outCh0 st)
                                             @ replicate (length (outCh0 st) - outIndex st) (Num 0))
                                            # os),
                                    posted = port st, written = outIndex st\<rparr>)))))"

text \<open>
  A sequence of calls on one processor, each with one input of one channel and one
  output of one channel (the blocks \<open>x\<close> and \<open>o0\<close> of a call are \<^verbatim>\<open>inputs[0][0]\<close>
  and \<^verbatim>\<open>outputs[0][0]\<close>). The sequence stops at the first call that throws or
  does not return.
\<close>

fun run ::
  "'d processFrame \<Rightarrow> 'd processor \<Rightarrow> (sample list \<times> sample list) list
     \<Rightarrow> (js_error + 'd process_result list) option" where
  "run pf p [] = Some (Inr [])"
| "run pf p ((x, o0) # cs) =
     (case process pf p (Some [x]) (Some [o0]) of
        None \<Rightarrow> None
      | Some (Inl e) \<Rightarrow> Some (Inl e)
      | Some (Inr r) \<Rightarrow>
          (case run pf (processor_after r) cs of
             None \<Rightarrow> None
           | Some (Inl e) \<Rightarrow> Some (Inl e)
           | Some (Inr rs) \<Rightarrow> Some (Inr (r # rs))))"

text \<open>The output channel after a call.\<close>

definition out_block :: "'d process_result \<Rightarrow> sample list" where
  "out_block r = (case output_after r of Some (c # cs) \<Rightarrow> c | _ \<Rightarrow> [])"

subsection \<open>Reference functions for the frame loop\<close>

text \<open>
  The invariant of the class: \<^verbatim>\<open>work\<close> is allocated with \<open>frameSize\<close> samples and
  neither is assigned again.
\<close>

definition well_formed :: "'d processor \<Rightarrow> bool" where
  "well_formed p \<longleftrightarrow> length (work p) = frameSize p"

text \<open>The full frames of a stream of samples, in order.\<close>

function frames :: "nat \<Rightarrow> 'a list \<Rightarrow> 'a list list" where
  "frames F xs = (if F = 0 \<or> length xs < F then [] else take F xs # frames F (drop F xs))"
  by pat_completeness auto
termination
  by (relation "measure (\<lambda>(F, xs). length xs)") auto

declare frames.simps [simp del]

text \<open>
  What the transform makes of one frame, from the state \<open>s\<close> of the DenoiseState:
  the new state, the contents of the frame buffer after the call and its recovery,
  and the score (0 when the call threw).
\<close>

definition denoise_frame ::
  "'d processFrame \<Rightarrow> 'd option \<Rightarrow> sample list \<Rightarrow> 'd option \<times> sample list \<times> real" where
  "denoise_frame pf s fr =
     (case s of
        None \<Rightarrow> (None, map or_zero fr, 0)
      | Some d \<Rightarrow>
          (case pf d fr of
             (d', Returns ys v) \<Rightarrow> (Some d', in_place fr ys, v)
           | (d', Throws) \<Rightarrow> (Some d', map or_zero fr, 0)))"

text \<open>The same for a sequence of frames, the state passing from one call to the next.\<close>

fun denoise_frames ::
  "'d processFrame \<Rightarrow> 'd option \<Rightarrow> sample list list \<Rightarrow> 'd option \<times> (sample list \<times> real) list" where
  "denoise_frames pf s [] = (s, [])"
| "denoise_frames pf s (fr # frs) =
     (let (s1, w, v) = denoise_frame pf s fr;
          (s2, rest) = denoise_frames pf s1 frs
      in (s2, (w, v) # rest))"

text \<open>
  The scores to post when the frames number \<open>fc + 1\<close>, \<open>fc + 2\<close>, ... have the
  scores \<open>vs\<close>: those of the frames whose number passes the test of the loop.
\<close>

definition posts :: "int \<Rightarrow> nat \<Rightarrow> real list \<Rightarrow> real list" where
  "posts vi fc vs =
     map snd (filter (\<lambda>(j, v). js_rem (int j) vi = Some 0) (zip [fc + 1 ..< fc + 1 + length vs] vs))"

text \<open>
  The number of iterations of the loop in a call that starts with \<open>L\<close> buffered
  samples (the input included) and an output of \<open>C\<close> samples: one per full frame,
  until the output is full.
\<close>

definition frames_taken :: "nat \<Rightarrow> nat \<Rightarrow> nat \<Rightarrow> nat" where
  "frames_taken F L C = min (L div F) ((C + F - 1) div F)"

text \<open>
  A call in terms of frames: the first \<open>k\<close> frames of the buffer go through the
  transform, the output receives as much of them as it holds, and the rest of the
  output is silence.
\<close>

definition call_result ::
  "'d processFrame \<Rightarrow> 'd processor \<Rightarrow> sample list \<Rightarrow> sample list \<Rightarrow> sample list list
     \<Rightarrow> 'd process_result" where
  "call_result pf p x o0 os =
     (let F = frameSize p;
          L = buf p @ x;
          C = length o0;
          k = frames_taken F (length L) C;
          (s, outs) = denoise_frames pf (state p) (take k (frames F L))
      in \<lparr>processor_after =
            p\<lparr>state := s, buf := drop (k * F) L, work := last (work p # map fst outs),
              frameCounter := frameCounter p + k\<rparr>,
          output_after =
            Some ((take C (concat (map fst outs)) @ replicate (C - k * F) (Num 0)) # os),
          posted = posts (vadInterval p) (frameCounter p) (map snd outs),
          written = min (k * F) C\<rparr>)"

text \<open>A sequence of calls in terms of frames, and the processor it leaves.\<close>

fun call_results ::
  "'d processFrame \<Rightarrow> 'd processor \<Rightarrow> (sample list \<times> sample list) list
     \<Rightarrow> 'd process_result list" where
  "call_results pf p [] = []"
| "call_results pf p ((x, o0) # cs) =
     (let r = call_result pf p x o0 [] in r # call_results pf (processor_after r) cs)"

definition final_processor :: "'d processor \<Rightarrow> 'd process_result list \<Rightarrow> 'd processor" where
  "final_processor p rs = last (p # map processor_after rs)"

text \<open>
  The processor \<open>p\<close> after the first \<open>m\<close> frames of the stream \<open>S\<close> went through
  the transform, and the scores of these frames.
\<close>

definition after_frames ::
  "'d processFrame \<Rightarrow> 'd processor \<Rightarrow> sample list \<Rightarrow> nat \<Rightarrow> 'd processor" where
  "after_frames pf p S m =
     (let (s, outs) = denoise_frames pf (state p) (take m (frames (frameSize p) S))
      in p\<lparr>state := s, buf := drop (m * frameSize p) S, work := last (work p # map fst outs),
           frameCounter := frameCounter p + m\<rparr>)"

definition frame_scores ::
  "'d processFrame \<Rightarrow> 'd processor \<Rightarrow> sample list \<Rightarrow> nat \<Rightarrow> real list" where
  "frame_scores pf p S m =
     map snd (snd (denoise_frames pf (state p) (take m (frames (frameSize p) S))))"

text \<open>
  The invariant of the loop in a call that starts with the buffer \<open>L\<close> and an output
  of \<open>C\<close> samples, after \<open>k\<close> iterations.
\<close>

definition call_inv ::
  "'d processFrame \<Rightarrow> 'd processor \<Rightarrow> sample list \<Rightarrow> nat \<Rightarrow> nat \<Rightarrow> 'd loop_state \<Rightarrow> bool" where
  "call_inv pf p L C k st \<longleftrightarrow>
     (let F = frameSize p; D = denoise_frames pf (state p) (take k (frames F L)) in
      k * F \<le> length L \<and> (0 < k \<longrightarrow> (k - 1) * F < C) \<and>
      proc st = p\<lparr>state := fst D, buf := drop (k * F) L, work := last (work p # map fst (snd D)),
                  frameCounter := frameCounter p + k\<rparr> \<and>
      length (outCh0 st) = C \<and> outIndex st = min (k * F) C \<and>
      take (outIndex st) (outCh0 st) = take C (concat (map fst (snd D))) \<and>
      port st = posts (vadInterval p) (frameCounter p) (map snd (snd D)))"

text \<open>
  The transform \<open>pf\<close> with its failures recovered: where \<open>pf\<close> throws, the frame
  comes back as it was, NaN read as 0, with the score 0.
\<close>

definition recovered :: "'d processFrame \<Rightarrow> 'd processFrame" where
  "recovered pf d fr =
     (case pf d fr of
        (d', Throws) \<Rightarrow> (d', Returns (map or_zero fr) 0)
      | (d', Returns ys v) \<Rightarrow> (d', Returns ys v))"

subsection \<open>Transforms and processors of the examples\<close>

text \<open>
  \<open>keep_frame\<close> returns every frame as it is, with the score 0. \<open>numbering\<close>
  counts its calls and returns the number of the call as the score. \<open>negating\<close>
  negates the samples with the score 0.9 and throws at its second call.
  \<open>always_failing\<close> throws at every call.
\<close>

definition keep_frame :: "unit processFrame" where
  "keep_frame d fr = (d, Returns fr 0)"

definition numbering :: "nat processFrame" where
  "numbering d fr = (Suc d, Returns fr (real (Suc d)))"

fun negate :: "sample \<Rightarrow> sample" where
  "negate (Num r) = Num (- r)"
| "negate NaN = NaN"

definition negating :: "nat processFrame" where
  "negating d fr = (Suc d, if d = 1 then Throws else Returns (map negate fr) 0.9)"

definition always_failing :: "unit processFrame" where
  "always_failing d fr = (d, Throws)"

text \<open>The processor that the constructor makes of a frame size and an interval.\<close>

definition fresh :: "'d \<Rightarrow> nat \<Rightarrow> int \<Rightarrow> 'd processor" where
  "fresh d F vi =
     \<lparr>state = Some d, frameSize = F, vadInterval = vi, buf = [],
      work = replicate F (Num 0), frameCounter = 0\<rparr>"

section \<open>The speaking detector\<close>

text \<open>
  \<^verbatim>\<open>audioLevelLoop\<close> of \<^verbatim>\<open>useStreamReceiver.js\<close> runs once per animation frame. For
  every registered member it reads the analyser, pushes the RMS of the reading
  into a history of at most \<^verbatim>\<open>rmsHistoryLength\<close> values, and decides the speaking
  state from the mean of the history and, for the local member, from the latest
  VAD score. The numbers of JavaScript are real numbers here.
\<close>

definition speakingThresholdOn :: real where
  "speakingThresholdOn = 0.04"

definition speakingThresholdOff :: real where
  "speakingThresholdOff = 0.02"

definition rmsHistoryLength :: nat where
  "rmsHistoryLength = 5"

definition vadSpeakingThreshold :: real where
  "vadSpeakingThreshold = 0.6"

text \<open>An entry of the map \<^verbatim>\<open>speakerAnalyzers\<close>, without the analyser node and its buffer.\<close>

record speaker_entry =
  history :: "real list"
  speaking :: bool

text \<open>\<^verbatim>\<open>setupAudioLevel\<close> registers a member with this entry.\<close>

definition initial_entry :: speaker_entry where
  "initial_entry = \<lparr>history = [], speaking = False\<rparr>"

text \<open>
  \<^verbatim>\<open>computeRms(data)\<close> on the bytes of the analyser (the buffer has
  \<^verbatim>\<open>fftSize = 512\<close> bytes, never none).
\<close>

definition computeRms :: "nat list \<Rightarrow> real" where
  "computeRms data =
     sqrt (foldl (\<lambda>sum b. sum + ((real b - 128) / 128) * ((real b - 128) / 128)) 0 data
           / real (length data))"

text \<open>
  The history after the push and the shift, and its mean (\<^verbatim>\<open>reduce\<close> adds from
  the left, starting at 0).
\<close>

definition push_history :: "real list \<Rightarrow> real \<Rightarrow> real list" where
  "push_history h rms =
     (let h1 = h @ [rms] in if length h1 > rmsHistoryLength then tl h1 else h1)"

definition average :: "real list \<Rightarrow> real" where
  "average h = foldl (\<lambda>a b. a + b) 0 h / real (length h)"

text \<open>
  The body of the loop for one member, from the RMS of the reading on.
  \<open>localMember\<close> is the id of \<^verbatim>\<open>localMember.value\<close> (\<open>None\<close> when there is none),
  \<open>latestVad\<close> is \<^verbatim>\<open>latestVadValue.value\<close>. The second component lists the calls
  of \<^verbatim>\<open>updateSpeakingVisual\<close>.
\<close>

definition member_tick ::
  "'m option \<Rightarrow> real \<Rightarrow> 'm \<Rightarrow> real \<Rightarrow> speaker_entry \<Rightarrow> speaker_entry \<times> ('m \<times> bool) list" where
  "member_tick localMember latestVad memberId rms obj =
     (let h = push_history (history obj) rms;
          avg = average h;
          prev = speaking obj;
          next1 = (if \<not> prev \<and> avg \<ge> speakingThresholdOn then True
                   else if prev \<and> avg < speakingThresholdOff then False
                   else prev);
          next2 = (if localMember = Some memberId
                   then (if \<not> next1 \<and> latestVad \<ge> vadSpeakingThreshold then True else next1)
                   else next1)
      in if next2 \<noteq> prev
         then (\<lparr>history = h, speaking = next2\<rparr>, [(memberId, next2)])
         else (\<lparr>history = h, speaking = prev\<rparr>, []))"

text \<open>
  One run of \<^verbatim>\<open>audioLevelLoop\<close> over the entries of the map, in their order;
  \<open>reading m\<close> is what \<^verbatim>\<open>getByteTimeDomainData\<close> delivers for the member \<open>m\<close>.
\<close>

fun audioLevelLoop ::
  "'m option \<Rightarrow> real \<Rightarrow> ('m \<Rightarrow> nat list) \<Rightarrow> ('m \<times> speaker_entry) list
     \<Rightarrow> ('m \<times> speaker_entry) list \<times> ('m \<times> bool) list" where
  "audioLevelLoop localMember latestVad reading [] = ([], [])"
| "audioLevelLoop localMember latestVad reading ((m, obj) # es) =
     (let (obj', ev) = member_tick localMember latestVad m (computeRms (reading m)) obj;
          (es', evs) = audioLevelLoop localMember latestVad reading es
      in ((m, obj') # es', ev @ evs))"

text \<open>
  The ticks of one member in sequence: each tick comes with the RMS of the reading
  and the VAD score that is the latest at that tick.
\<close>

fun member_run ::
  "'m option \<Rightarrow> 'm \<Rightarrow> (real \<times> real) list \<Rightarrow> speaker_entry
     \<Rightarrow> speaker_entry \<times> ('m \<times> bool) list" where
  "member_run localMember memberId [] obj = (obj, [])"
| "member_run localMember memberId ((rms, vad) # ts) obj =
     (let (obj1, ev1) = member_tick localMember vad memberId rms obj;
          (obj2, ev2) = member_run localMember memberId ts obj1
      in (obj2, ev1 @ ev2))"

text \<open>
  \<open>avg_held c h rs\<close>: from the history \<open>h\<close> on, the readings with the RMS values
  \<open>rs\<close> give the mean \<open>c\<close> at every tick.
\<close>

fun avg_held :: "real \<Rightarrow> real list \<Rightarrow> real list \<Rightarrow> bool" where
  "avg_held c h [] = True"
| "avg_held c h (r # rs) = (average (push_history h r) = c \<and> avg_held c (push_history h r) rs)"

section \<open>The frame loop in terms of frames\<close>

subsection \<open>The loop and one iteration\<close>

lemma drain_rule:
  assumes "I st"
    and step: "\<And>s. I s \<Longrightarrow> loop_guard s \<Longrightarrow> I (loop_body pf s) \<and> m (loop_body pf s) < (m s :: nat)"
  shows "\<exists>st'. drain pf st = Some st' \<and> I st' \<and> \<not> loop_guard st'"
  using assms(1)
proof (induction "m st" arbitrary: st rule: less_induct)
  case less
  show ?case
  proof (cases "loop_guard st")
    case True
    with step[OF less.prems] have "I (loop_body pf st)" "m (loop_body pf st) < m st" by auto
    from less.hyps[OF this(2) this(1)] show ?thesis
      using True by (subst drain.simps) simp
  next
    case False
    then show ?thesis using less.prems by (subst drain.simps) simp
  qed
qed

lemma fallback_eq:
  "n \<le> length xs \<Longrightarrow> map (index_or_zero xs) [0..<n] = map or_zero (take n xs)"
  by (rule nth_equalityI) (auto simp: index_or_zero_def)

lemma length_denoise_frame:
  "denoise_frame pf s fr = (s', w, v) \<Longrightarrow> length w = length fr"
  by (auto simp: denoise_frame_def in_place_def split: option.splits prod.splits pf_result.splits)

lemma loop_body_frame:
  assumes wf: "well_formed (proc st)" and g: "loop_guard st"
    and df: "denoise_frame pf (state (proc st)) (take (frameSize (proc st)) (buf (proc st))) = (s', w, v)"
  shows "loop_body pf st =
     \<lparr>proc = (proc st)\<lparr>state := s', buf := drop (frameSize (proc st)) (buf (proc st)), work := w,
                        frameCounter := Suc (frameCounter (proc st))\<rparr>,
      outCh0 = take (outIndex st) (outCh0 st) @ take (length (outCh0 st) - outIndex st) w
               @ drop (outIndex st + frameSize (proc st)) (outCh0 st),
      outIndex = min (outIndex st + frameSize (proc st)) (length (outCh0 st)),
      port = port st @ (if js_rem (int (Suc (frameCounter (proc st)))) (vadInterval (proc st)) = Some 0
                        then [v] else [])\<rparr>"
proof -
  let ?p = "proc st" let ?F = "frameSize ?p"
  have FL: "?F \<le> length (buf ?p)" and iC: "outIndex st < length (outCh0 st)"
    using g by (auto simp: loop_guard_def)
  have lw: "length (work ?p) = ?F" using wf by (simp add: well_formed_def)
  have w1: "ta_set (work ?p) (subarray (buf ?p) 0 ?F) 0 = take ?F (buf ?p)"
    using FL lw by (simp add: ta_set_def subarray_def)
  have fb: "map (index_or_zero (buf ?p)) [0..<length (take ?F (buf ?p))] = map or_zero (take ?F (buf ?p))"
    using FL by (simp add: fallback_eq)
  have lenw: "length w = ?F" using length_denoise_frame[OF df] FL by simp
  have tri: "(case state ?p of
               None \<Rightarrow> (None, map or_zero (take ?F (buf ?p)), 0)
             | Some d \<Rightarrow>
                 (case pf d (take ?F (buf ?p)) of
                    (d', Returns ys v) \<Rightarrow> (Some d', in_place (take ?F (buf ?p)) ys, v)
                  | (d', Throws) \<Rightarrow> (Some d', map or_zero (take ?F (buf ?p)), 0))) = (s', w, v)"
    using df by (simp add: denoise_frame_def)
  have out: "ta_set (outCh0 st) (subarray w 0 (min (length w) (length (outCh0 st) - outIndex st))) (outIndex st)
      = take (outIndex st) (outCh0 st) @ take (length (outCh0 st) - outIndex st) w
               @ drop (outIndex st + ?F) (outCh0 st)"
    using lenw iC by (auto simp: ta_set_def subarray_def min_def)
  have oi: "outIndex st + min (length w) (length (outCh0 st) - outIndex st) = min (outIndex st + ?F) (length (outCh0 st))"
    using lenw iC by (simp add: min_def) arith
  have nb: "subarray (buf ?p) ?F (length (buf ?p)) = drop ?F (buf ?p)"
    by (simp add: subarray_def)
  show ?thesis
    unfolding loop_body_def Let_def w1 fb tri prod.case out oi nb
    by simp
qed


lemma frames_length: "0 < F \<Longrightarrow> length (frames F xs) = length xs div F"
proof (induction F xs rule: frames.induct)
  case (1 F xs)
  show ?case
  proof (cases "length xs < F")
    case True
    then show ?thesis by (subst frames.simps) simp
  next
    case False
    with 1 have "length (frames F (drop F xs)) = (length xs - F) div F" by simp
    with False 1(2) show ?thesis
      by (subst frames.simps) (simp add: le_div_geq)
  qed
qed

lemma frames_nth:
  "0 < F \<Longrightarrow> Suc k * F \<le> length xs \<Longrightarrow> frames F xs ! k = take F (drop (k * F) xs)"
proof (induction k arbitrary: xs)
  case 0
  then show ?case by (subst frames.simps) simp
next
  case (Suc k)
  have le: "F \<le> length xs" using Suc.prems by (simp add: mult_Suc) 
  have "Suc k * F \<le> length (drop F xs)" using Suc.prems by simp
  from Suc.IH[OF Suc.prems(1) this] have "frames F (drop F xs) ! k = take F (drop (k * F + F) xs)"
    by (simp add: add.commute)
  with le Suc.prems(1) show ?case
    by (subst frames.simps) (simp add: add.commute)
qed

lemma frames_take_Suc:
  assumes "0 < F" "Suc k * F \<le> length xs"
  shows "take (Suc k) (frames F xs) = take k (frames F xs) @ [take F (drop (k * F) xs)]"
proof -
  have "Suc k \<le> length xs div F" using assms by (simp add: less_eq_div_iff_mult_less_eq)
  then have "k < length (frames F xs)" using assms(1) by (simp add: frames_length)
  then show ?thesis using assms by (simp add: take_Suc_conv_app_nth frames_nth)
qed

lemma denoise_frames_snoc:
  "denoise_frames pf s (frs @ [fr]) =
     (let (s1, outs) = denoise_frames pf s frs; (s2, w, v) = denoise_frame pf s1 fr
      in (s2, outs @ [(w, v)]))"
  by (induction frs arbitrary: s) (auto split: prod.splits)

lemma denoise_frames_lengths:
  "\<forall>fr \<in> set frs. length fr = F \<Longrightarrow> denoise_frames pf s frs = (s', outs) \<Longrightarrow>
     length outs = length frs \<and> (\<forall>w \<in> set (map fst outs). length w = F)"
proof (induction frs arbitrary: s s' outs)
  case Nil
  then show ?case by simp
next
  case (Cons fr frs)
  obtain s1 w v where df: "denoise_frame pf s fr = (s1, w, v)" by (metis prod_cases3)
  obtain s2 rest where ds: "denoise_frames pf s1 frs = (s2, rest)" by (metis surj_pair)
  from Cons.prems(2) df ds have o: "outs = (w, v) # rest" by simp
  from Cons.IH[OF _ ds] Cons.prems(1) have "length rest = length frs \<and> (\<forall>w \<in> set (map fst rest). length w = F)" by simp
  moreover have "length w = F" using length_denoise_frame[OF df] Cons.prems(1) by simp
  ultimately show ?case using o by simp
qed

lemma frames_all_length: "\<forall>fr \<in> set (frames F xs). length fr = F"
proof (induction F xs rule: frames.induct)
  case (1 F xs)
  show ?case
  proof (cases "F = 0 \<or> length xs < F")
    case True
    then show ?thesis by (subst frames.simps) simp
  next
    case False
    with 1 show ?thesis by (subst frames.simps) auto
  qed
qed

lemma length_concat_const:
  "\<forall>w \<in> set ws. length w = F \<Longrightarrow> length (concat ws) = length ws * F"
  by (induction ws) auto

lemma posts_snoc:
  "posts vi fc (vs @ [v]) =
     posts vi fc vs @ (if js_rem (int (Suc (fc + length vs))) vi = Some 0 then [v] else [])"
proof -
  have "[fc + 1 ..< fc + 1 + length (vs @ [v])] = [fc + 1 ..< fc + 1 + length vs] @ [Suc (fc + length vs)]"
    by simp
  then show ?thesis by (simp add: posts_def del: upt_Suc)
qed


lemma frames_taken_unique:
  assumes F: "0 < F" and a: "k * F \<le> L" and b: "0 < k \<longrightarrow> (k - 1) * F < C"
    and c: "L < Suc k * F \<or> C \<le> k * F"
  shows "k = frames_taken F L C"
proof -
  have k1: "k \<le> L div F" using a F by (simp add: less_eq_div_iff_mult_less_eq)
  have k2: "k \<le> (C + F - 1) div F"
  proof (cases k)
    case 0 then show ?thesis by simp
  next
    case (Suc j)
    with b have "j * F < C" by simp
    then have "Suc j * F \<le> C + F - 1" using F by simp
    then show ?thesis using F Suc by (simp add: less_eq_div_iff_mult_less_eq)
  qed
  from c have "L div F \<le> k \<or> (C + F - 1) div F \<le> k"
  proof
    assume "L < Suc k * F"
    then have "L div F < Suc k" using F by (simp add: div_less_iff_less_mult)
    then show ?thesis by simp
  next
    assume "C \<le> k * F"
    then have "C + F - 1 < Suc k * F" using F by simp
    then have "(C + F - 1) div F < Suc k" using F by (simp add: div_less_iff_less_mult)
    then show ?thesis by simp
  qed
  with k1 k2 show ?thesis by (auto simp: frames_taken_def)
qed


lemma call_inv_init:
  "call_inv pf p L (length o0) 0 \<lparr>proc = p\<lparr>buf := L\<rparr>, outCh0 = o0, outIndex = 0, port = []\<rparr>"
  by (simp add: call_inv_def posts_def)

lemma call_inv_step:
  assumes wf: "well_formed p" and F: "0 < frameSize p"
    and inv: "call_inv pf p L C k st" and g: "loop_guard st"
  shows "call_inv pf p L C (Suc k) (loop_body pf st)"
proof -
  let ?F = "frameSize p"
  obtain s outs where D: "denoise_frames pf (state p) (take k (frames ?F L)) = (s, outs)"
    by (metis surj_pair)
  note inv' = inv[unfolded call_inv_def Let_def D fst_conv snd_conv]
  from inv' have kL: "k * ?F \<le> length L"
    and pr: "proc st = p\<lparr>state := s, buf := drop (k * ?F) L, work := last (work p # map fst outs),
                  frameCounter := frameCounter p + k\<rparr>"
    and lo: "length (outCh0 st) = C" and oi: "outIndex st = min (k * ?F) C"
    and tk: "take (outIndex st) (outCh0 st) = take C (concat (map fst outs))"
    and po: "port st = posts (vadInterval p) (frameCounter p) (map snd outs)"
    by blast+
  have lens: "length outs = length (take k (frames ?F L)) \<and> (\<forall>w \<in> set (map fst outs). length w = ?F)"
    by (rule denoise_frames_lengths[OF _ D]) (meson frames_all_length in_set_takeD)
  have "k \<le> length L div ?F" using kL F by (simp add: less_eq_div_iff_mult_less_eq)
  then have lk: "length outs = k" using lens F by (simp add: frames_length)
  have lc: "length (concat (map fst outs)) = k * ?F"
    using length_concat_const[of "map fst outs" ?F] lens lk by simp
  have wfst: "well_formed (proc st)"
  proof (cases outs rule: rev_cases)
    case Nil
    then show ?thesis using pr wf by (simp add: well_formed_def)
  next
    case (snoc ys y)
    then show ?thesis using pr lens by (simp add: well_formed_def)
  qed
  from g pr lo have FL: "?F \<le> length (drop (k * ?F) L)" and iC: "outIndex st < C"
    by (simp_all add: loop_guard_def)
  from iC oi have kC: "k * ?F < C" by simp
  then have oi': "outIndex st = k * ?F" using oi by simp
  have SkL: "Suc k * ?F \<le> length L" using FL kL by simp
  let ?fr = "take ?F (drop (k * ?F) L)"
  obtain s2 w v where df: "denoise_frame pf s ?fr = (s2, w, v)" by (metis prod_cases3)
  have lw: "length w = ?F" using length_denoise_frame[OF df] FL by simp
  have D': "denoise_frames pf (state p) (take (Suc k) (frames ?F L)) = (s2, outs @ [(w, v)])"
    by (simp add: frames_take_Suc[OF F SkL] denoise_frames_snoc D df)
  have df': "denoise_frame pf (state (proc st)) (take (frameSize (proc st)) (buf (proc st))) = (s2, w, v)"
    using df pr by simp
  note body = loop_body_frame[OF wfst g df']
  have t1: "take (k * ?F) (outCh0 st) = concat (map fst outs)"
    using tk oi' lc kC by simp
  have newout: "take (min (Suc k * ?F) C)
      (take (k * ?F) (outCh0 st) @ take (C - k * ?F) w @ drop (k * ?F + ?F) (outCh0 st))
     = take C (concat (map fst outs) @ w)"
  proof -
    have "min (Suc k * ?F) C = k * ?F + min ?F (C - k * ?F)" using kC by (simp add: min_def) arith
    moreover have "length (take (k * ?F) (outCh0 st)) = k * ?F" using lo kC by simp
    ultimately have "take (min (Suc k * ?F) C)
      (take (k * ?F) (outCh0 st) @ take (C - k * ?F) w @ drop (k * ?F + ?F) (outCh0 st))
      = take (k * ?F) (outCh0 st) @ take (min ?F (C - k * ?F)) (take (C - k * ?F) w)"
      using lw by (simp add: min_def)
    also have "\<dots> = concat (map fst outs) @ take (C - k * ?F) w"
      using t1 lw by (simp add: min_def)
    also have "\<dots> = take C (concat (map fst outs) @ w)" using lc kC by simp
    finally show ?thesis .
  qed
  have newlen: "length (take (k * ?F) (outCh0 st) @ take (C - k * ?F) w @ drop (k * ?F + ?F) (outCh0 st)) = C"
    using lo lw kC by (simp add: min_def)
  have newport: "port st @ (if js_rem (int (Suc (frameCounter p + k))) (vadInterval p) = Some 0 then [v] else [])
      = posts (vadInterval p) (frameCounter p) (map snd outs @ [v])"
    using po lk by (simp add: posts_snoc)
  show ?thesis
    unfolding call_inv_def Let_def D' fst_conv snd_conv body
    using SkL kC newout newlen newport pr oi' lo
    by (simp add: add.commute)
qed


lemma process_call_result:
  assumes wf: "well_formed p" and F: "0 < frameSize p" and st: "state p \<noteq> None"
  shows "process pf p (Some (x # xs)) (Some (o0 # os)) = Some (Inr (call_result pf p x o0 os))"
proof -
  let ?F = "frameSize p" let ?L = "buf p @ x" let ?C = "length o0"
  let ?st0 = "\<lparr>proc = p\<lparr>buf := ?L\<rparr>, outCh0 = o0, outIndex = 0, port = []\<rparr>"
  let ?I = "\<lambda>st. \<exists>k. call_inv pf p ?L ?C k st"
  have "\<exists>st'. drain pf ?st0 = Some st' \<and> ?I st' \<and> \<not> loop_guard st'"
  proof (rule drain_rule[where m = "\<lambda>st. length (buf (proc st))"])
    show "?I ?st0" using call_inv_init by blast
  next
    fix s assume I: "?I s" and g: "loop_guard s"
    then obtain k where inv: "call_inv pf p ?L ?C k s" by blast
    have "call_inv pf p ?L ?C (Suc k) (loop_body pf s)"
      by (rule call_inv_step[OF wf F inv g])
    moreover have "length (buf (proc (loop_body pf s))) < length (buf (proc s))"
    proof -
      have b1: "buf (proc (loop_body pf s)) = drop (Suc k * ?F) ?L"
        using \<open>call_inv pf p ?L ?C (Suc k) (loop_body pf s)\<close> by (simp add: call_inv_def Let_def)
      have b0: "buf (proc s) = drop (k * ?F) ?L" using inv by (simp add: call_inv_def Let_def)
      have "Suc k * ?F \<le> length ?L"
        using \<open>call_inv pf p ?L ?C (Suc k) (loop_body pf s)\<close> by (simp add: call_inv_def Let_def)
      then show ?thesis unfolding b1 b0 using F by simp
    qed
    ultimately show "?I (loop_body pf s) \<and> length (buf (proc (loop_body pf s))) < length (buf (proc s))"
      by blast
  qed
  then obtain st' k where dr: "drain pf ?st0 = Some st'" and inv: "call_inv pf p ?L ?C k st'"
    and ng: "\<not> loop_guard st'" by blast
  obtain s outs where D: "denoise_frames pf (state p) (take k (frames ?F ?L)) = (s, outs)"
    by (metis surj_pair)
  note inv' = inv[unfolded call_inv_def Let_def D fst_conv snd_conv]
  from inv' have kL: "k * ?F \<le> length ?L" and kb: "0 < k \<longrightarrow> (k - 1) * ?F < ?C"
    and pr: "proc st' = p\<lparr>state := s, buf := drop (k * ?F) ?L, work := last (work p # map fst outs),
                  frameCounter := frameCounter p + k\<rparr>"
    and lo: "length (outCh0 st') = ?C" and oi: "outIndex st' = min (k * ?F) ?C"
    and tk: "take (outIndex st') (outCh0 st') = take ?C (concat (map fst outs))"
    and po: "port st' = posts (vadInterval p) (frameCounter p) (map snd outs)"
    by blast+
  from ng pr lo oi have stop: "length ?L < Suc k * ?F \<or> ?C \<le> k * ?F"
    by (auto simp: loop_guard_def min_def split: if_splits)
  have keq: "k = frames_taken ?F (length ?L) ?C"
    by (rule frames_taken_unique[OF F kL kb stop])
  have D': "denoise_frames pf (state p) (take (frames_taken ?F (length ?L) ?C) (frames ?F ?L)) = (s, outs)"
    using D keq by simp
  have cr: "call_result pf p x o0 os =
     \<lparr>processor_after = proc st',
      output_after = Some ((take ?C (concat (map fst outs)) @ replicate (?C - k * ?F) (Num 0)) # os),
      posted = port st', written = outIndex st'\<rparr>"
    unfolding call_result_def Let_def D' prod.case using keq pr po oi by simp
  obtain d where d: "state p = Some d" using st by blast
  show ?thesis
    unfolding process_def cr using d dr tk lo oi by (simp add: min_def)
qed

subsection \<open>A call\<close>

lemma denoise_frame_state:
  "denoise_frame pf s fr = (s', w, v) \<Longrightarrow> (s' = None) = (s = None)"
  by (auto simp: denoise_frame_def split: option.splits prod.splits pf_result.splits)

lemma denoise_frames_state:
  "denoise_frames pf s frs = (s', outs) \<Longrightarrow> (s' = None) = (s = None)"
proof (induction frs arbitrary: s s' outs)
  case Nil
  then show ?case by simp
next
  case (Cons fr frs)
  obtain s1 w v where df: "denoise_frame pf s fr = (s1, w, v)" by (metis prod_cases3)
  obtain s2 rest where ds: "denoise_frames pf s1 frs = (s2, rest)" by (metis surj_pair)
  from Cons.prems df ds have "s' = s2" by simp
  with Cons.IH[OF ds] denoise_frame_state[OF df] show ?case by simp
qed

lemma call_result_fields:
  fixes p :: "'d processor" and x o0 :: "sample list" and pf :: "'d processFrame"
  defines "k \<equiv> frames_taken (frameSize p) (length (buf p @ x)) (length o0)"
  defines "D \<equiv> denoise_frames pf (state p) (take k (frames (frameSize p) (buf p @ x)))"
  shows "processor_after (call_result pf p x o0 os) =
           p\<lparr>state := fst D, buf := drop (k * frameSize p) (buf p @ x),
             work := last (work p # map fst (snd D)), frameCounter := frameCounter p + k\<rparr>"
    and "output_after (call_result pf p x o0 os) =
           Some ((take (length o0) (concat (map fst (snd D)))
                  @ replicate (length o0 - k * frameSize p) (Num 0)) # os)"
    and "posted (call_result pf p x o0 os) = posts (vadInterval p) (frameCounter p) (map snd (snd D))"
    and "written (call_result pf p x o0 os) = min (k * frameSize p) (length o0)"
  unfolding call_result_def Let_def k_def D_def by (simp_all add: case_prod_beta)

lemma call_result_invariants:
  assumes wf: "well_formed p"
  shows "well_formed (processor_after (call_result pf p x o0 os))"
    and "frameSize (processor_after (call_result pf p x o0 os)) = frameSize p"
    and "vadInterval (processor_after (call_result pf p x o0 os)) = vadInterval p"
    and "(state (processor_after (call_result pf p x o0 os)) = None) = (state p = None)"
proof -
  let ?k = "frames_taken (frameSize p) (length (buf p @ x)) (length o0)"
  obtain s outs where D: "denoise_frames pf (state p) (take ?k (frames (frameSize p) (buf p @ x))) = (s, outs)"
    by (metis surj_pair)
  have lens: "\<forall>w \<in> set (map fst outs). length w = frameSize p"
    using denoise_frames_lengths[OF _ D, of "frameSize p"] by (meson frames_all_length in_set_takeD)
  have "length (last (work p # map fst outs)) = frameSize p"
  proof (cases outs rule: rev_cases)
    case Nil
    then show ?thesis using wf by (simp add: well_formed_def)
  next
    case (snoc ys y)
    then show ?thesis using lens by simp
  qed
  then show "well_formed (processor_after (call_result pf p x o0 os))"
    unfolding call_result_fields(1) D fst_conv snd_conv well_formed_def by simp
  show "frameSize (processor_after (call_result pf p x o0 os)) = frameSize p"
    and "vadInterval (processor_after (call_result pf p x o0 os)) = vadInterval p"
    by (simp_all add: call_result_fields)
  show "(state (processor_after (call_result pf p x o0 os)) = None) = (state p = None)"
    unfolding call_result_fields(1) D fst_conv snd_conv using denoise_frames_state[OF D] by simp
qed

lemma frames_taken_bounds:
  assumes F: "0 < F"
  shows "frames_taken F L C * F \<le> L"
    and "0 < frames_taken F L C \<Longrightarrow> (frames_taken F L C - 1) * F < C"
    and "L < Suc (frames_taken F L C) * F \<or> C \<le> frames_taken F L C * F"
proof -
  let ?k = "frames_taken F L C"
  have "?k \<le> L div F" by (simp add: frames_taken_def)
  then show a: "?k * F \<le> L" using F by (simp add: less_eq_div_iff_mult_less_eq)
  show "(?k - 1) * F < C" if "0 < ?k"
  proof -
    have "?k \<le> (C + F - 1) div F" by (simp add: frames_taken_def)
    then have le: "?k * F \<le> C + F - 1" using F by (simp add: less_eq_div_iff_mult_less_eq)
    have "?k = Suc (?k - 1)" using that by simp
    then have "?k * F = (?k - 1) * F + F" by (metis mult_Suc add.commute)
    then have "(?k - 1) * F + F = ?k * F" by simp
    with le have "(?k - 1) * F + F \<le> C + F - 1" by simp
    then show ?thesis using F by linarith
  qed
  show "L < Suc ?k * F \<or> C \<le> ?k * F"
  proof (cases "L div F \<le> (C + F - 1) div F")
    case True
    then have "?k = L div F" by (simp add: frames_taken_def)
    moreover have "L < Suc (L div F) * F" using F dividend_less_div_times[of F L] by (simp add: mult.commute)
    ultimately show ?thesis by simp
  next
    case False
    then have k: "?k = (C + F - 1) div F" by (simp add: frames_taken_def)
    have "C + F - 1 < Suc ((C + F - 1) div F) * F"
      using F dividend_less_div_times[of F "C + F - 1"] by (simp add: mult.commute)
    then have "C \<le> ((C + F - 1) div F) * F" using F by simp
    with k show ?thesis by simp
  qed
qed

subsection \<open>A sequence of calls\<close>

lemma run_call_results:
  assumes "well_formed p" "0 < frameSize p" "state p \<noteq> None"
  shows "run pf p cs = Some (Inr (call_results pf p cs))"
  using assms
proof (induction cs arbitrary: p)
  case Nil
  then show ?case by simp
next
  case (Cons c cs)
  obtain x o0 where c: "c = (x, o0)" by (cases c)
  let ?r = "call_result pf p x o0 []"
  have pr: "process pf p (Some [x]) (Some [o0]) = Some (Inr ?r)"
    by (rule process_call_result[OF Cons.prems])
  have "run pf (processor_after ?r) cs = Some (Inr (call_results pf (processor_after ?r) cs))"
    using Cons.prems call_result_invariants[OF Cons.prems(1), of pf x o0 "[]"]
    by (intro Cons.IH) simp_all
  then show ?case using pr c by (simp add: Let_def)
qed

lemma frames_drop: "0 < F \<Longrightarrow> frames F (drop (k * F) xs) = drop k (frames F xs)"
proof (induction k arbitrary: xs)
  case 0
  then show ?case by simp
next
  case (Suc k)
  show ?case
  proof (cases "length xs < F")
    case True
    then have "frames F xs = []" by (subst frames.simps) simp
    moreover have "frames F (drop (Suc k * F) xs) = []" using True Suc.prems by (subst frames.simps) simp
    ultimately show ?thesis by simp
  next
    case False
    then have fx: "frames F xs = take F xs # frames F (drop F xs)" using Suc.prems by (subst frames.simps) simp
    have "drop (Suc k * F) xs = drop (k * F) (drop F xs)" by (simp add: add.commute)
    then show ?thesis using Suc.IH[OF Suc.prems, of "drop F xs"] fx by simp
  qed
qed

lemma frames_take_append:
  assumes F: "0 < F" and k: "k * F \<le> length xs"
  shows "take k (frames F (xs @ ys)) = take k (frames F xs)"
proof (rule nth_equalityI)
  have a: "k \<le> length xs div F" using k F by (simp add: less_eq_div_iff_mult_less_eq)
  also have "\<dots> \<le> (length xs + length ys) div F" by (simp add: div_le_mono)
  finally have b: "k \<le> length (xs @ ys) div F" by simp
  show len: "length (take k (frames F (xs @ ys))) = length (take k (frames F xs))"
    using a b F by (simp add: frames_length)
  fix i assume "i < length (take k (frames F (xs @ ys)))"
  then have ik: "i < k" by simp
  then have "Suc i * F \<le> k * F" by (intro mult_le_mono1) simp
  with k have i1: "Suc i * F \<le> length xs" by simp
  then have i2: "Suc i * F \<le> length (xs @ ys)" by simp
  have "i * F + F \<le> length xs" using i1 by (simp add: add.commute)
  then have "take F (drop (i * F) (xs @ ys)) = take F (drop (i * F) xs)" by simp
  then show "take k (frames F (xs @ ys)) ! i = take k (frames F xs) ! i"
    using ik frames_nth[OF F i1] frames_nth[OF F i2] by simp
qed

lemma denoise_frames_append:
  "denoise_frames pf s (as @ bs) =
     (let (s1, o1) = denoise_frames pf s as; (s2, o2) = denoise_frames pf s1 bs in (s2, o1 @ o2))"
  by (induction as arbitrary: s) (auto split: prod.splits)

lemma posts_append:
  "posts vi fc (vs @ ws) = posts vi fc vs @ posts vi (fc + length vs) ws"
proof -
  let ?a = "fc + 1" let ?n = "length vs" let ?m = "length ws"
  have u: "[?a ..< ?a + ?n + ?m] = [?a ..< ?a + ?n] @ [?a + ?n ..< ?a + ?n + ?m]"
    by (rule upt_add_eq_append) simp
  have e1: "?a + length (vs @ ws) = ?a + ?n + ?m" by simp
  have e2: "fc + ?n + 1 = ?a + ?n" by simp
  have z: "zip ([?a ..< ?a + ?n] @ [?a + ?n ..< ?a + ?n + ?m]) (vs @ ws)
      = zip [?a ..< ?a + ?n] vs @ zip [?a + ?n ..< ?a + ?n + ?m] ws"
    by (rule zip_append) (simp only: length_upt add_diff_cancel_left')
  show ?thesis
    unfolding posts_def e1 e2 u z by simp
qed

lemma call_result_after_frames:
  "processor_after (call_result pf p x o0 os) =
     after_frames pf p (buf p @ x) (frames_taken (frameSize p) (length (buf p @ x)) (length o0))"
  unfolding call_result_fields(1) after_frames_def Let_def by (simp add: case_prod_beta)

lemma call_result_posted:
  "posted (call_result pf p x o0 os) =
     posts (vadInterval p) (frameCounter p)
       (frame_scores pf p (buf p @ x) (frames_taken (frameSize p) (length (buf p @ x)) (length o0)))"
  unfolding call_result_fields(3) frame_scores_def by simp

lemma after_frames_0: "after_frames pf p (buf p) 0 = p"
  by (simp add: after_frames_def)

lemma after_frames_fields:
  "frameSize (after_frames pf p S m) = frameSize p"
  "vadInterval (after_frames pf p S m) = vadInterval p"
  "frameCounter (after_frames pf p S m) = frameCounter p + m"
  "buf (after_frames pf p S m) = drop (m * frameSize p) S"
  by (simp_all add: after_frames_def Let_def case_prod_beta)

lemma frames_split:
  assumes F: "0 < F" and k: "k * F \<le> length S1"
  shows "take (k + m) (frames F (S1 @ X)) =
         take k (frames F S1) @ take m (frames F (drop (k * F) S1 @ X))"
proof -
  have "drop (k * F) S1 @ X = drop (k * F) (S1 @ X)" using k by simp
  then have "frames F (drop (k * F) S1 @ X) = drop k (frames F (S1 @ X))"
    using frames_drop[OF F, of k "S1 @ X"] by simp
  moreover have "take k (frames F S1) = take k (frames F (S1 @ X))"
    using frames_take_append[OF F k] by simp
  ultimately show ?thesis by (simp add: take_add)
qed

lemma after_frames_compose:
  assumes F: "0 < frameSize p" and k: "k * frameSize p \<le> length S1"
  shows "after_frames pf (after_frames pf p S1 k) (drop (k * frameSize p) S1 @ X) m
         = after_frames pf p (S1 @ X) (k + m)"
proof -
  let ?F = "frameSize p"
  obtain s1 o1 where D1: "denoise_frames pf (state p) (take k (frames ?F S1)) = (s1, o1)"
    by (metis surj_pair)
  obtain s2 o2 where D2: "denoise_frames pf s1 (take m (frames ?F (drop (k * ?F) S1 @ X))) = (s2, o2)"
    by (metis surj_pair)
  have D: "denoise_frames pf (state p) (take (k + m) (frames ?F (S1 @ X))) = (s2, o1 @ o2)"
    unfolding frames_split[OF F k] denoise_frames_append D1 Let_def prod.case D2 by simp
  have p1: "after_frames pf p S1 k = p\<lparr>state := s1, buf := drop (k * ?F) S1,
      work := last (work p # map fst o1), frameCounter := frameCounter p + k\<rparr>"
    unfolding after_frames_def Let_def D1 by simp
  have dr: "drop (m * ?F) (drop (k * ?F) S1 @ X) = drop ((k + m) * ?F) (S1 @ X)"
    using k by (simp add: add_mult_distrib add.commute)
  have la: "last (last (work p # map fst o1) # map fst o2) = last (work p # map fst (o1 @ o2))"
    by (cases o2 rule: rev_cases) simp_all
  have fc: "frameCounter p + k + m = frameCounter p + (k + m)" by simp
  let ?q = "after_frames pf p S1 k"
  have st: "state ?q = s1" and fs: "frameSize ?q = ?F" by (simp_all add: p1)
  have lhs: "after_frames pf ?q (drop (k * ?F) S1 @ X) m =
      ?q\<lparr>state := s2, buf := drop (m * ?F) (drop (k * ?F) S1 @ X),
         work := last (work ?q # map fst o2), frameCounter := frameCounter ?q + m\<rparr>"
    unfolding after_frames_def[of pf ?q] Let_def st fs D2 by simp
  have rhs: "after_frames pf p (S1 @ X) (k + m) =
      p\<lparr>state := s2, buf := drop ((k + m) * ?F) (S1 @ X),
        work := last (work p # map fst (o1 @ o2)), frameCounter := frameCounter p + (k + m)\<rparr>"
    unfolding after_frames_def[of pf p "S1 @ X"] Let_def D by simp
  show ?thesis
    unfolding lhs rhs dr unfolding p1
    by (rule processor.equality) (simp_all add: last_append)
qed

lemma frame_scores_compose:
  assumes F: "0 < frameSize p" and k: "k * frameSize p \<le> length S1"
  shows "frame_scores pf p (S1 @ X) (k + m) =
         frame_scores pf p S1 k @ frame_scores pf (after_frames pf p S1 k) (drop (k * frameSize p) S1 @ X) m"
proof -
  let ?F = "frameSize p"
  obtain s1 o1 where D1: "denoise_frames pf (state p) (take k (frames ?F S1)) = (s1, o1)"
    by (metis surj_pair)
  obtain s2 o2 where D2: "denoise_frames pf s1 (take m (frames ?F (drop (k * ?F) S1 @ X))) = (s2, o2)"
    by (metis surj_pair)
  have D: "denoise_frames pf (state p) (take (k + m) (frames ?F (S1 @ X))) = (s2, o1 @ o2)"
    unfolding frames_split[OF F k] denoise_frames_append D1 Let_def prod.case D2 by simp
  have p1: "after_frames pf p S1 k = p\<lparr>state := s1, buf := drop (k * ?F) S1,
      work := last (work p # map fst o1), frameCounter := frameCounter p + k\<rparr>"
    unfolding after_frames_def Let_def D1 by simp
  show ?thesis
    unfolding frame_scores_def D unfolding p1 D1 using D2 by simp
qed

lemma frame_scores_length:
  assumes F: "0 < frameSize p" and m: "m * frameSize p \<le> length S"
  shows "length (frame_scores pf p S m) = m"
proof -
  obtain s outs where D: "denoise_frames pf (state p) (take m (frames (frameSize p) S)) = (s, outs)"
    by (metis surj_pair)
  have "length outs = length (take m (frames (frameSize p) S))"
    using denoise_frames_lengths[OF _ D, of "frameSize p"] by (meson frames_all_length in_set_takeD)
  moreover have "m \<le> length S div frameSize p" using m F by (simp add: less_eq_div_iff_mult_less_eq)
  ultimately show ?thesis using F by (simp add: frame_scores_def D frames_length)
qed

lemma call_results_final:
  assumes "well_formed p" "0 < frameSize p"
  shows "\<exists>m. m * frameSize p \<le> length (buf p @ concat (map fst cs)) \<and>
             final_processor p (call_results pf p cs) = after_frames pf p (buf p @ concat (map fst cs)) m \<and>
             concat (map posted (call_results pf p cs)) =
               posts (vadInterval p) (frameCounter p) (frame_scores pf p (buf p @ concat (map fst cs)) m)"
  using assms
proof (induction cs arbitrary: p)
  case Nil
  have "final_processor p [] = after_frames pf p (buf p) 0"
    by (simp add: final_processor_def after_frames_0)
  moreover have "posts (vadInterval p) (frameCounter p) (frame_scores pf p (buf p) 0) = []"
    by (simp add: posts_def frame_scores_def)
  ultimately show ?case by (intro exI[of _ 0]) simp
next
  case (Cons c cs)
  obtain x o0 where c: "c = (x, o0)" by (cases c)
  let ?F = "frameSize p" let ?S1 = "buf p @ x" let ?X = "concat (map fst cs)"
  let ?k = "frames_taken ?F (length ?S1) (length o0)"
  let ?r = "call_result pf p x o0 []"
  let ?p1 = "processor_after ?r"
  have p1: "?p1 = after_frames pf p ?S1 ?k" by (rule call_result_after_frames)
  have k: "?k * ?F \<le> length ?S1" by (rule frames_taken_bounds(1)[OF Cons.prems(2)])
  have wf1: "well_formed ?p1" and F1: "frameSize ?p1 = ?F" and vi1: "vadInterval ?p1 = vadInterval p"
    using call_result_invariants[OF Cons.prems(1), of pf x o0 "[]"] by simp_all
  have b1: "buf ?p1 = drop (?k * ?F) ?S1" and fc1: "frameCounter ?p1 = frameCounter p + ?k"
    unfolding p1 by (simp_all add: after_frames_fields)
  from Cons.IH[OF wf1] F1 Cons.prems(2)
  obtain m where m: "m * ?F \<le> length (buf ?p1 @ ?X)"
    and fin: "final_processor ?p1 (call_results pf ?p1 cs) = after_frames pf ?p1 (buf ?p1 @ ?X) m"
    and po: "concat (map posted (call_results pf ?p1 cs)) =
               posts (vadInterval ?p1) (frameCounter ?p1) (frame_scores pf ?p1 (buf ?p1 @ ?X) m)"
    by auto
  have S: "buf p @ concat (map fst (c # cs)) = ?S1 @ ?X" using c by simp
  have a: "(?k + m) * ?F \<le> length (?S1 @ ?X)"
    using m k unfolding b1 by (simp add: add_mult_distrib)
  have b: "final_processor p (call_results pf p (c # cs)) = after_frames pf p (?S1 @ ?X) (?k + m)"
  proof -
    have "final_processor p (call_results pf p (c # cs)) = final_processor ?p1 (call_results pf ?p1 cs)"
      using c by (simp add: final_processor_def Let_def)
    also have "\<dots> = after_frames pf (after_frames pf p ?S1 ?k) (drop (?k * ?F) ?S1 @ ?X) m"
      using fin unfolding b1 unfolding p1 by simp
    also have "\<dots> = after_frames pf p (?S1 @ ?X) (?k + m)"
      by (rule after_frames_compose[OF Cons.prems(2) k])
    finally show ?thesis .
  qed
  have d: "concat (map posted (call_results pf p (c # cs))) =
      posts (vadInterval p) (frameCounter p) (frame_scores pf p (?S1 @ ?X) (?k + m))"
  proof -
    have lk: "length (frame_scores pf p ?S1 ?k) = ?k"
      by (rule frame_scores_length[OF Cons.prems(2) k])
    have "concat (map posted (call_results pf p (c # cs))) =
        posted ?r @ concat (map posted (call_results pf ?p1 cs))"
      using c by (simp add: Let_def)
    also have "\<dots> = posts (vadInterval p) (frameCounter p) (frame_scores pf p ?S1 ?k)
        @ posts (vadInterval p) (frameCounter p + ?k)
            (frame_scores pf (after_frames pf p ?S1 ?k) (drop (?k * ?F) ?S1 @ ?X) m)"
      using po unfolding vi1 fc1 b1 unfolding p1 call_result_posted by simp
    also have "\<dots> = posts (vadInterval p) (frameCounter p) (frame_scores pf p (?S1 @ ?X) (?k + m))"
      unfolding frame_scores_compose[OF Cons.prems(2) k] posts_append lk by simp
    finally show ?thesis .
  qed
  show ?case unfolding S using a b d by blast
qed

lemma construct_facts:
  assumes "construct (Some opts) = Inr p"
  shows "well_formed p" and "buf p = []" and "frameCounter p = 0" and "state p = denoiseState opts"
    and "vadInterval p = (case opt_vadInterval opts of None \<Rightarrow> 10 | Some n \<Rightarrow> n)"
    and "int (frameSize p) = (case opt_frameSize opts of None \<Rightarrow> 480 | Some n \<Rightarrow> n)"
  using assms
  by (auto simp: construct_def Let_def well_formed_def split: if_splits option.splits)

lemma call_results_each:
  assumes "well_formed (p :: 'd processor)"
    and "\<And>(q :: 'd processor) x o0. well_formed q \<Longrightarrow> frameSize q = frameSize p \<Longrightarrow> vadInterval q = vadInterval p
           \<Longrightarrow> (state q = None) = (state p = None) \<Longrightarrow> P (call_result pf q x o0 []) (q, (x, o0))"
  shows "list_all2 P (call_results pf p cs) (zip (p # map processor_after (call_results pf p cs)) cs)"
  using assms
proof (induction cs arbitrary: p)
  case Nil
  then show ?case by simp
next
  case (Cons c cs)
  obtain x o0 where c: "c = (x, o0)" by (cases c)
  let ?r = "call_result pf p x o0 []"
  note inv = call_result_invariants[OF Cons.prems(1), of pf x o0 "[]"]
  have "list_all2 P (call_results pf (processor_after ?r) cs)
          (zip (processor_after ?r # map processor_after (call_results pf (processor_after ?r) cs)) cs)"
  proof (rule Cons.IH[OF inv(1)])
    fix q :: "'d processor" and x' o0'
    assume "well_formed q" "frameSize q = frameSize (processor_after ?r)"
      "vadInterval q = vadInterval (processor_after ?r)"
      "(state q = None) = (state (processor_after ?r) = None)"
    then show "P (call_result pf q x' o0' []) (q, (x', o0'))"
      using inv by (intro Cons.prems(2)) simp_all
  qed
  moreover have "P ?r (p, (x, o0))" using Cons.prems(1) by (intro Cons.prems(2)) simp_all
  ultimately show ?case using c by (simp add: Let_def)
qed


lemma call_result_buf:
  "buf (processor_after (call_result pf p x o0 os)) =
     drop (frames_taken (frameSize p) (length (buf p @ x)) (length o0) * frameSize p) (buf p @ x)"
  and call_result_counter:
  "frameCounter (processor_after (call_result pf p x o0 os)) =
     frameCounter p + frames_taken (frameSize p) (length (buf p @ x)) (length o0)"
  unfolding call_result_after_frames by (simp_all add: after_frames_fields)

lemma call_result_written:
  "written (call_result pf p x o0 os) =
     min (frames_taken (frameSize p) (length (buf p @ x)) (length o0) * frameSize p) (length o0)"
  by (rule call_result_fields(4))


lemma construct_fresh:
  "0 \<le> n \<Longrightarrow>
   construct (Some \<lparr>denoiseState = Some d, opt_frameSize = Some n, opt_vadInterval = Some vi\<rparr>)
     = Inr (fresh d (nat n) vi)"
  by (simp add: construct_def fresh_def)

lemma call_result_written_div:
  assumes F: "0 < frameSize p"
  shows "written (call_result pf p x o0 os) =
           min (frameSize p * (length (buf p @ x) div frameSize p)) (length o0)"
proof -
  let ?F = "frameSize p" let ?L = "length (buf p @ x)" let ?C = "length o0"
  let ?k = "frames_taken ?F ?L ?C"
  have kle: "?k \<le> ?L div ?F" by (simp add: frames_taken_def)
  then have kF: "?k * ?F \<le> ?F * (?L div ?F)" by (simp add: mult.commute)
  from frames_taken_bounds(3)[OF F, of ?L ?C]
  show ?thesis
  proof
    assume "?L < Suc ?k * ?F"
    then have "?L div ?F < Suc ?k" using F by (simp add: div_less_iff_less_mult)
    with kle have "?k = ?L div ?F" by simp
    then show ?thesis unfolding call_result_written by (simp add: mult.commute)
  next
    assume C: "?C \<le> ?k * ?F"
    then have 1: "min (?k * ?F) ?C = ?C" by (rule min_absorb2)
    from C kF have "?C \<le> ?F * (?L div ?F)" by (rule order_trans)
    then have 2: "min (?F * (?L div ?F)) ?C = ?C" by (rule min_absorb2)
    show ?thesis unfolding call_result_written 1 2 ..
  qed
qed

lemma call_result_written_tail:
  assumes F: "0 < frameSize p"
  shows "written (call_result pf p x o0 os)
           \<le> frames_taken (frameSize p) (length (buf p @ x)) (length o0) * frameSize p"
    and "frames_taken (frameSize p) (length (buf p @ x)) (length o0) * frameSize p
           < written (call_result pf p x o0 os) + frameSize p"
proof -
  let ?F = "frameSize p" let ?L = "length (buf p @ x)" let ?C = "length o0"
  let ?k = "frames_taken ?F ?L ?C"
  show "written (call_result pf p x o0 os) \<le> ?k * ?F"
    unfolding call_result_written by simp
  show "?k * ?F < written (call_result pf p x o0 os) + ?F"
  proof (cases "?k * ?F \<le> ?C")
    case True
    then show ?thesis unfolding call_result_written using F by (simp add: min_def)
  next
    case False
    then have "0 < ?k" by (cases "?k") auto
    from frames_taken_bounds(2)[OF F this] have "(?k - 1) * ?F < ?C" .
    moreover have "?k * ?F = (?k - 1) * ?F + ?F"
      using \<open>0 < ?k\<close> by (metis Suc_pred' mult_Suc add.commute)
    ultimately show ?thesis unfolding call_result_written using False by (simp add: min_def)
  qed
qed

lemma call_results_written_input:
  assumes "well_formed p" "0 < frameSize p"
  shows "sum_list (map written (call_results pf p cs))
           + length (buf (final_processor p (call_results pf p cs)))
         \<le> length (buf p) + length (concat (map fst cs))"
  using assms
proof (induction cs arbitrary: p)
  case Nil
  then show ?case by (simp add: final_processor_def)
next
  case (Cons c cs)
  obtain x o0 where c: "c = (x, o0)" by (cases c)
  let ?r = "call_result pf p x o0 []"
  let ?p1 = "processor_after ?r"
  let ?k = "frames_taken (frameSize p) (length (buf p @ x)) (length o0)"
  note inv = call_result_invariants[OF Cons.prems(1), of pf x o0 "[]"]
  have ih: "sum_list (map written (call_results pf ?p1 cs))
           + length (buf (final_processor ?p1 (call_results pf ?p1 cs)))
         \<le> length (buf ?p1) + length (concat (map fst cs))"
    using inv Cons.prems(2) by (intro Cons.IH) simp_all
  have kL: "?k * frameSize p \<le> length (buf p @ x)"
    by (rule frames_taken_bounds(1)[OF Cons.prems(2)])
  have w: "written ?r \<le> ?k * frameSize p"
    by (rule call_result_written_tail(1)[OF Cons.prems(2)])
  have b: "length (buf ?p1) = length (buf p @ x) - ?k * frameSize p"
    unfolding call_result_buf by (rule length_drop)
  have fin: "final_processor p (call_results pf p (c # cs)) = final_processor ?p1 (call_results pf ?p1 cs)"
    using c by (simp add: final_processor_def Let_def)
  have sm: "sum_list (map written (call_results pf p (c # cs)))
      = written ?r + sum_list (map written (call_results pf ?p1 cs))"
    using c by (simp add: Let_def)
  have len: "length (buf p) + length (concat (map fst (c # cs)))
      = length (buf p @ x) + length (concat (map fst cs))" using c by simp
  show ?case unfolding fin sm len using ih w b kL by linarith
qed

lemma call_results_written_capacity:
  "sum_list (map written (call_results pf p cs)) \<le> sum_list (map (\<lambda>(x, o0). length o0) cs)"
proof (induction cs arbitrary: p)
  case Nil
  then show ?case by simp
next
  case (Cons c cs)
  obtain x o0 where c: "c = (x, o0)" by (cases c)
  have "written (call_result pf p x o0 []) \<le> length o0"
    unfolding call_result_written by simp
  with Cons.IH[of "processor_after (call_result pf p x o0 [])"] show ?case
    using c by (simp add: Let_def)
qed

lemma call_results_final_counter:
  fixes p :: "'d processor" and cs :: "(sample list \<times> sample list) list" and pf :: "'d processFrame"
  assumes wf: "well_formed p" and F: "0 < frameSize p"
  defines "S \<equiv> buf p @ concat (map fst cs)"
  defines "m \<equiv> frameCounter (final_processor p (call_results pf p cs)) - frameCounter p"
  shows "m * frameSize p \<le> length S"
    and "final_processor p (call_results pf p cs) = after_frames pf p S m"
    and "concat (map posted (call_results pf p cs)) =
           posts (vadInterval p) (frameCounter p) (frame_scores pf p S m)"
    and "frameCounter (final_processor p (call_results pf p cs)) = frameCounter p + m"
proof -
  from call_results_final[OF wf F, of cs pf]
  obtain m' where a: "m' * frameSize p \<le> length S"
    and b: "final_processor p (call_results pf p cs) = after_frames pf p S m'"
    and c: "concat (map posted (call_results pf p cs)) =
           posts (vadInterval p) (frameCounter p) (frame_scores pf p S m')"
    unfolding S_def by blast
  have "m = m'" unfolding m_def b by (simp add: after_frames_fields)
  with a b c show "m * frameSize p \<le> length S"
    and "final_processor p (call_results pf p cs) = after_frames pf p S m"
    and "concat (map posted (call_results pf p cs)) =
           posts (vadInterval p) (frameCounter p) (frame_scores pf p S m)"
    by simp_all
  show "frameCounter (final_processor p (call_results pf p cs)) = frameCounter p + m"
    unfolding b \<open>m = m'\<close> by (simp add: after_frames_fields)
qed

subsection \<open>A frame size of 0\<close>

text \<open>
  The constructor accepts the frame size 0. The loop then takes an empty frame at
  every iteration and advances neither the buffer nor the output index: a call
  with a transform and an output that is not empty never returns. The claims below
  are about processors with a positive frame size.
\<close>

lemma loop_body_zero_frame:
  assumes wf: "well_formed (proc st)" and F: "frameSize (proc st) = 0"
  shows "frameSize (proc (loop_body pf st)) = 0"
    and "well_formed (proc (loop_body pf st))"
    and "outIndex (loop_body pf st) = outIndex st"
    and "length (outCh0 (loop_body pf st)) = length (outCh0 st)"
proof -
  have w: "work (proc st) = []" using wf F by (simp add: well_formed_def)
  show "frameSize (proc (loop_body pf st)) = 0"
    using F by (simp add: loop_body_def Let_def case_prod_beta)
  show "well_formed (proc (loop_body pf st))"
    using F w
    by (auto simp: loop_body_def Let_def well_formed_def ta_set_def subarray_def in_place_def
        split: option.splits prod.splits pf_result.splits)
  show "outIndex (loop_body pf st) = outIndex st"
    using F w
    by (auto simp: loop_body_def Let_def ta_set_def subarray_def in_place_def
        split: option.splits prod.splits pf_result.splits)
  show "length (outCh0 (loop_body pf st)) = length (outCh0 st)"
    using F w
    by (auto simp: loop_body_def Let_def ta_set_def subarray_def in_place_def
        split: option.splits prod.splits pf_result.splits)
qed

lemma drain_zero_frame_size:
  assumes "drain pf st = Some y"
  shows "\<not> (well_formed (proc st) \<and> frameSize (proc st) = 0 \<and> outIndex st < length (outCh0 st))"
proof (rule drain.raw_induct
    [where P = "\<lambda>pf st y. \<not> (well_formed (proc st) \<and> frameSize (proc st) = 0
                                  \<and> outIndex st < length (outCh0 st))", OF _ assms])
  fix drain' :: "'a processFrame \<Rightarrow> 'a loop_state \<Rightarrow> 'a loop_state option" and pf' st' y'
  assume ih: "\<And>pf st y. drain' pf st = Some y \<Longrightarrow>
      \<not> (well_formed (proc st) \<and> frameSize (proc st) = 0 \<and> outIndex st < length (outCh0 st))"
    and eq: "(if loop_guard st' then drain' pf' (loop_body pf' st') else Some st') = Some y'"
  show "\<not> (well_formed (proc st') \<and> frameSize (proc st') = 0 \<and> outIndex st' < length (outCh0 st'))"
  proof
    assume inv: "well_formed (proc st') \<and> frameSize (proc st') = 0 \<and> outIndex st' < length (outCh0 st')"
    then have g: "loop_guard st'" by (simp add: loop_guard_def)
    with eq have "drain' pf' (loop_body pf' st') = Some y'" by simp
    from ih[OF this] have "\<not> (well_formed (proc (loop_body pf' st')) \<and> frameSize (proc (loop_body pf' st')) = 0
        \<and> outIndex (loop_body pf' st') < length (outCh0 (loop_body pf' st')))" .
    moreover have "well_formed (proc (loop_body pf' st')) \<and> frameSize (proc (loop_body pf' st')) = 0
        \<and> outIndex (loop_body pf' st') < length (outCh0 (loop_body pf' st'))"
      using loop_body_zero_frame[of st' pf'] inv by simp
    ultimately show False by contradiction
  qed
qed

lemma process_zero_frame_size_diverges:
  assumes "well_formed p" "frameSize p = 0" "state p \<noteq> None" "o0 \<noteq> []"
  shows "process pf p (Some (x # xs)) (Some (o0 # os)) = None"
proof -
  let ?st = "\<lparr>proc = p\<lparr>buf := buf p @ x\<rparr>, outCh0 = o0, outIndex = 0, port = []\<rparr>"
  have "drain pf ?st = None"
  proof (cases "drain pf ?st")
    case None
    then show ?thesis .
  next
    case (Some y)
    from drain_zero_frame_size[OF this] assms show ?thesis by (simp add: well_formed_def)
  qed
  then show ?thesis using assms(3) by (auto simp: process_def)
qed

section \<open>Claims about the processor\<close>





text \<open>
  Claim C2, as amended. For any sequence of input blocks fed to a processor that
  the constructor made with a transform and a positive frame size, a call writes
  \<open>min (frameSize * (L div frameSize)) capacity\<close> transformed samples, \<open>L\<close> being the
  number of samples in the buffer once the input is appended, and the samples
  written in all calls are at most the minimum of the samples fed and the total
  capacity. Two chunkings of the same input that have processed the same number of
  frames leave the same processor (buffer, state of the transform, frame and
  counter) and have posted the same scores.
\<close>

theorem frame_accounting:
  fixes p0 :: "'d processor"
  assumes c: "construct (Some opts) = Inr p0" and d: "denoiseState opts \<noteq> None"
    and F: "0 < frameSize p0"
    and same: "concat (map fst cs') = concat (map fst cs)"
  shows "\<exists>rs rs'. run pf p0 cs = Some (Inr rs) \<and> run pf p0 cs' = Some (Inr rs') \<and>
           sum_list (map written rs)
             \<le> min (length (concat (map fst cs))) (sum_list (map (\<lambda>(x, o0). length o0) cs)) \<and>
           list_all2 (\<lambda>r (q, (x, o0)).
                        written r = min (frameSize p0 * ((length (buf q) + length x) div frameSize p0))
                                        (length o0))
             rs (zip (p0 # map processor_after rs) cs) \<and>
           (frameCounter (final_processor p0 rs') = frameCounter (final_processor p0 rs) \<longrightarrow>
              final_processor p0 rs' = final_processor p0 rs \<and>
              concat (map posted rs') = concat (map posted rs))"
proof -
  note cf = construct_facts[OF c]
  have st: "state p0 \<noteq> None" using cf(4) d by simp
  let ?rs = "call_results pf p0 cs" and ?rs' = "call_results pf p0 cs'"
  have r: "run pf p0 cs = Some (Inr ?rs)" and r': "run pf p0 cs' = Some (Inr ?rs')"
    by (rule run_call_results[OF cf(1) F st])+
  have "sum_list (map written ?rs) + length (buf (final_processor p0 ?rs))
         \<le> length (buf p0) + length (concat (map fst cs))"
    by (rule call_results_written_input[OF cf(1) F])
  then have a1: "sum_list (map written ?rs) \<le> length (concat (map fst cs))"
    using cf(2) by simp
  have a2: "sum_list (map written ?rs) \<le> sum_list (map (\<lambda>(x, o0). length o0) cs)"
    by (rule call_results_written_capacity)
  have a: "sum_list (map written ?rs)
             \<le> min (length (concat (map fst cs))) (sum_list (map (\<lambda>(x, o0). length o0) cs))"
    using a1 a2 by simp
  have b: "list_all2 (\<lambda>r (q, (x, o0)).
                        written r = min (frameSize p0 * ((length (buf q) + length x) div frameSize p0))
                                        (length o0))
             ?rs (zip (p0 # map processor_after ?rs) cs)"
  proof (rule call_results_each[OF cf(1)], goal_cases)
    case (1 q x o0)
    then show ?case using call_result_written_div[of q pf x o0 "[]"] F by simp
  qed
  have e: "final_processor p0 ?rs' = final_processor p0 ?rs \<and>
           concat (map posted ?rs') = concat (map posted ?rs)"
    if eq: "frameCounter (final_processor p0 ?rs') = frameCounter (final_processor p0 ?rs)"
  proof -
    let ?S = "buf p0 @ concat (map fst cs)"
    from call_results_final[OF cf(1) F, of cs pf]
    obtain m where f: "final_processor p0 ?rs = after_frames pf p0 ?S m"
      and g: "concat (map posted ?rs) = posts (vadInterval p0) (frameCounter p0) (frame_scores pf p0 ?S m)"
      by blast
    from call_results_final[OF cf(1) F, of cs' pf] same
    obtain m' where f': "final_processor p0 ?rs' = after_frames pf p0 ?S m'"
      and g': "concat (map posted ?rs') = posts (vadInterval p0) (frameCounter p0) (frame_scores pf p0 ?S m')"
      by auto
    have "frameCounter (after_frames pf p0 ?S m') = frameCounter (after_frames pf p0 ?S m)"
      using eq f f' by simp
    then have "m' = m" by (simp add: after_frames_fields)
    then show ?thesis using f f' g g' by simp
  qed
  show ?thesis using r r' a b e by blast
qed


text \<open>
  The theorem at four samples fed in blocks of three and one, and in one block:
  both chunkings process two frames.
\<close>

theorem frame_accounting_witness:
  "construct (Some \<lparr>denoiseState = Some (), opt_frameSize = Some 2, opt_vadInterval = Some 10\<rparr>)
     = Inr (fresh () 2 10) \<and>
   denoiseState \<lparr>denoiseState = Some (), opt_frameSize = Some 2, opt_vadInterval = Some 10\<rparr> \<noteq> None \<and>
   0 < frameSize (fresh () 2 10) \<and>
   concat (map fst [([Num 1, Num 2, Num 3, Num 4], [Num 9, Num 9, Num 9, Num 9])])
     = concat (map fst [([Num 1, Num 2, Num 3], [Num 9, Num 9, Num 9, Num 9]), ([Num 4], [Num 9, Num 9])]) \<and>
   (\<exists>rs rs'.
      run keep_frame (fresh () 2 10)
        [([Num 1, Num 2, Num 3], [Num 9, Num 9, Num 9, Num 9]), ([Num 4], [Num 9, Num 9])] = Some (Inr rs) \<and>
      run keep_frame (fresh () 2 10)
        [([Num 1, Num 2, Num 3, Num 4], [Num 9, Num 9, Num 9, Num 9])] = Some (Inr rs') \<and>
      sum_list (map written rs)
        \<le> min (length (concat (map fst
                   [([Num 1, Num 2, Num 3], [Num 9, Num 9, Num 9, Num 9]), ([Num 4], [Num 9, Num 9])])))
               (sum_list (map (\<lambda>(x, o0). length o0)
                   [([Num 1, Num 2, Num 3], [Num 9, Num 9, Num 9, Num 9]), ([Num 4], [Num 9, Num 9])])) \<and>
      list_all2 (\<lambda>r (q, (x, o0)).
                   written r = min (frameSize (fresh () 2 10)
                                      * ((length (buf q) + length x) div frameSize (fresh () 2 10)))
                                   (length o0))
        rs (zip (fresh () 2 10 # map processor_after rs)
              [([Num 1, Num 2, Num 3], [Num 9, Num 9, Num 9, Num 9]), ([Num 4], [Num 9, Num 9])]) \<and>
      (frameCounter (final_processor (fresh () 2 10) rs')
         = frameCounter (final_processor (fresh () 2 10) rs) \<longrightarrow>
       final_processor (fresh () 2 10) rs' = final_processor (fresh () 2 10) rs \<and>
       concat (map posted rs') = concat (map posted rs))) \<and>
   frameCounter (final_processor (fresh () 2 10)
     (call_results keep_frame (fresh () 2 10)
        [([Num 1, Num 2, Num 3, Num 4], [Num 9, Num 9, Num 9, Num 9])])) = 2 \<and>
   frameCounter (final_processor (fresh () 2 10)
     (call_results keep_frame (fresh () 2 10)
        [([Num 1, Num 2, Num 3], [Num 9, Num 9, Num 9, Num 9]), ([Num 4], [Num 9, Num 9])])) = 2"
proof -
  let ?cs = "[([Num 1, Num 2, Num 3], [Num 9, Num 9, Num 9, Num 9]), ([Num 4], [Num 9, Num 9])]"
  let ?cs' = "[([Num 1, Num 2, Num 3, Num 4], [Num 9, Num 9, Num 9, Num 9])]"
  have c: "construct (Some \<lparr>denoiseState = Some (), opt_frameSize = Some 2, opt_vadInterval = Some 10\<rparr>)
     = Inr (fresh () 2 10)"
    using construct_fresh[of 2 "()" 10] by simp
  have d: "denoiseState \<lparr>denoiseState = Some (), opt_frameSize = Some 2, opt_vadInterval = Some 10\<rparr> \<noteq> None"
    by simp
  have F: "0 < frameSize (fresh () 2 10)" by (simp add: fresh_def)
  have same: "concat (map fst ?cs') = concat (map fst ?cs)" by simp
  note r = frame_accounting [OF c d F same, of keep_frame]
  have m': "frameCounter (final_processor (fresh () 2 10) (call_results keep_frame (fresh () 2 10) ?cs')) = 2"
    by code_simp
  have m: "frameCounter (final_processor (fresh () 2 10) (call_results keep_frame (fresh () 2 10) ?cs)) = 2"
    by code_simp
  show ?thesis by (intro conjI) (fact c d F same r m m')+
qed

text \<open>
  The claim as it was stated fails: two samples fed one at a time into outputs of
  one sample give the outputs 0 and 1, one transformed sample in all for two
  samples fed and a capacity of two; fed at once into an output of two samples
  they give the output 1, 2.
\<close>

theorem frame_accounting_counterexample:
  "(let whole = [([Num 1, Num 2], [Num 9, Num 9])];
        split = [([Num 1], [Num 9]), ([Num 2], [Num 9])];
        rs = [\<lparr>processor_after = \<lparr>state = Some (), frameSize = 2, vadInterval = 10, buf = [],
                                    work = [Num 1, Num 2], frameCounter = 1\<rparr>,
               output_after = Some [[Num 1, Num 2]], posted = [], written = 2\<rparr>];
        rs' = [\<lparr>processor_after = \<lparr>state = Some (), frameSize = 2, vadInterval = 10, buf = [Num 1],
                                     work = [Num 0, Num 0], frameCounter = 0\<rparr>,
                output_after = Some [[Num 0]], posted = [], written = 0\<rparr>,
               \<lparr>processor_after = \<lparr>state = Some (), frameSize = 2, vadInterval = 10, buf = [],
                                     work = [Num 1, Num 2], frameCounter = 1\<rparr>,
                output_after = Some [[Num 1]], posted = [], written = 1\<rparr>]
    in run keep_frame (fresh () 2 10) whole = Some (Inr rs) \<and>
       run keep_frame (fresh () 2 10) split = Some (Inr rs') \<and>
       concat (map fst split) = concat (map fst whole) \<and>
       sum_list (map (\<lambda>(x, o0). length o0) split) = sum_list (map (\<lambda>(x, o0). length o0) whole) \<and>
       sum_list (map written rs')
         \<noteq> min (length (concat (map fst split))) (sum_list (map (\<lambda>(x, o0). length o0) split)) \<and>
       concat (map out_block rs') \<noteq> concat (map out_block rs))"
  by code_simp

lemma js_rem_multiple:
  "0 < vi \<Longrightarrow> js_rem (int j) vi = Some 0 \<longleftrightarrow> j mod nat vi = 0"
proof -
  assume vi: "0 < vi"
  have "int j mod vi = 0 \<longleftrightarrow> j mod nat vi = 0"
    using vi by (metis int_nat_eq less_le_not_le of_nat_0 of_nat_eq_iff zmod_int)
  then show ?thesis using vi by (cases "j = 0") (simp_all add: js_rem_def)
qed

lemma js_rem_zero: "js_rem a 0 \<noteq> Some 0"
  by (simp add: js_rem_def)


lemma zip_upt_nth:
  "zip [fc + 1 ..< fc + 1 + length vs] vs = map (\<lambda>i. (i, vs ! (i - (fc + 1)))) [fc + 1 ..< fc + 1 + length vs]"
  by (rule nth_equalityI) (simp_all del: upt_Suc)

lemma posts_positive:
  assumes vi: "0 < vi"
  shows "posts vi 0 vs = map (\<lambda>i. vs ! (i - 1)) (filter (\<lambda>i. i mod nat vi = 0) [1 ..< Suc (length vs)])"
proof -
  have "posts vi 0 vs = map snd (filter (\<lambda>(j, v). j mod nat vi = 0)
            (map (\<lambda>i. (i, vs ! (i - 1))) [1 ..< Suc (length vs)]))"
    using zip_upt_nth[of 0 vs] by (simp add: posts_def js_rem_multiple[OF vi])
  then show ?thesis by (simp add: filter_map comp_def)
qed

lemma multiples_of_10_upto_25: "filter (\<lambda>i. i mod 10 = 0) [1 ..< Suc 25] = [10, 20 :: nat]"
  by code_simp

text \<open>
  Claim C4. The loop adds one to \<^verbatim>\<open>frameCounter\<close> for every frame it processes, and
  posts the score of a frame exactly when the counter, that frame counted, is a
  multiple of \<^verbatim>\<open>vadInterval\<close>: after any sequence of calls of a processor made
  with a transform, a positive frame size and a positive interval \<open>vi\<close>, the
  counter \<open>m\<close> is the number of frames that went through the transform, and the
  scores posted are the scores of the frames number \<open>vi\<close>, \<open>2 * vi\<close>, ... up to
  \<open>m\<close>, each the score of the frame at the boundary itself. With the interval 10
  and 25 frames the posted scores are those of the frames 10 and 20.
\<close>

theorem vad_posted_every_interval:
  fixes p0 :: "'d processor"
  assumes c: "construct (Some opts) = Inr p0" and d: "denoiseState opts \<noteq> None"
    and F: "0 < frameSize p0"
    and vi: "opt_vadInterval opts = Some vi" "0 < vi"
  shows "\<exists>rs m sc. run pf p0 cs = Some (Inr rs) \<and>
           m = frameCounter (final_processor p0 rs) \<and>
           final_processor p0 rs = after_frames pf p0 (concat (map fst cs)) m \<and>
           sc = frame_scores pf p0 (concat (map fst cs)) m \<and> length sc = m \<and>
           concat (map posted rs) =
             map (\<lambda>i. sc ! (i - 1)) (filter (\<lambda>i. i mod nat vi = 0) [1 ..< Suc m]) \<and>
           (vi = 10 \<and> m = 25 \<longrightarrow> concat (map posted rs) = [sc ! 9, sc ! 19])"
proof -
  note cf = construct_facts[OF c]
  have st: "state p0 \<noteq> None" using cf(4) d by simp
  have v: "vadInterval p0 = vi" using cf(5) vi(1) by simp
  let ?rs = "call_results pf p0 cs"
  let ?S = "concat (map fst cs)"
  have r: "run pf p0 cs = Some (Inr ?rs)" by (rule run_call_results[OF cf(1) F st])
  from call_results_final[OF cf(1) F, of cs pf] cf(2)
  obtain m where mS: "m * frameSize p0 \<le> length ?S"
    and f: "final_processor p0 ?rs = after_frames pf p0 ?S m"
    and g: "concat (map posted ?rs) = posts (vadInterval p0) (frameCounter p0) (frame_scores pf p0 ?S m)"
    by auto
  let ?sc = "frame_scores pf p0 ?S m"
  have m: "m = frameCounter (final_processor p0 ?rs)"
    unfolding f using cf(3) by (simp add: after_frames_fields)
  have len: "length ?sc = m" by (rule frame_scores_length[OF F mS])
  have po: "concat (map posted ?rs) =
             map (\<lambda>i. ?sc ! (i - 1)) (filter (\<lambda>i. i mod nat vi = 0) [1 ..< Suc m])"
    unfolding g v cf(3) posts_positive[OF vi(2)] len ..
  have inst: "concat (map posted ?rs) = [?sc ! 9, ?sc ! 19]" if "vi = 10" "m = 25"
    unfolding po using that multiples_of_10_upto_25 by simp
  show ?thesis using r m f len po inst by blast
qed

text \<open>
  The theorem at 25 frames of one sample fed in blocks of 13 and 12, with the
  transform that scores its \<open>n\<close>-th frame \<open>n\<close>: the calls post 10 and 20.
\<close>

theorem vad_posted_every_interval_witness:
  "construct (Some \<lparr>denoiseState = Some (0::nat), opt_frameSize = Some 1, opt_vadInterval = Some 10\<rparr>)
     = Inr (fresh 0 1 10) \<and>
   denoiseState \<lparr>denoiseState = Some (0::nat), opt_frameSize = Some 1, opt_vadInterval = Some 10\<rparr> \<noteq> None \<and>
   0 < frameSize (fresh (0::nat) 1 10) \<and>
   opt_vadInterval \<lparr>denoiseState = Some (0::nat), opt_frameSize = Some 1, opt_vadInterval = Some 10\<rparr>
     = Some 10 \<and>
   (0::int) < 10 \<and>
   (\<exists>rs m sc.
      run numbering (fresh 0 1 10)
        [(replicate 13 (Num 1), replicate 13 (Num 9)), (replicate 12 (Num 2), replicate 12 (Num 9))]
        = Some (Inr rs) \<and>
      m = frameCounter (final_processor (fresh 0 1 10) rs) \<and>
      final_processor (fresh 0 1 10) rs =
        after_frames numbering (fresh 0 1 10)
          (concat (map fst [(replicate 13 (Num 1), replicate 13 (Num 9)),
                            (replicate 12 (Num 2), replicate 12 (Num 9))])) m \<and>
      sc = frame_scores numbering (fresh 0 1 10)
             (concat (map fst [(replicate 13 (Num 1), replicate 13 (Num 9)),
                               (replicate 12 (Num 2), replicate 12 (Num 9))])) m \<and>
      length sc = m \<and>
      concat (map posted rs) =
        map (\<lambda>i. sc ! (i - 1)) (filter (\<lambda>i. i mod nat 10 = 0) [1 ..< Suc m]) \<and>
      ((10::int) = 10 \<and> m = 25 \<longrightarrow> concat (map posted rs) = [sc ! 9, sc ! 19])) \<and>
   map_option (map_sum id (map posted))
     (run numbering (fresh 0 1 10)
        [(replicate 13 (Num 1), replicate 13 (Num 9)), (replicate 12 (Num 2), replicate 12 (Num 9))])
     = Some (Inr [[10], [20]]) \<and>
   frame_scores numbering (fresh 0 1 10) (replicate 13 (Num 1) @ replicate 12 (Num 2)) 25
     = map real [1 ..< 26]"
proof -
  let ?opts = "\<lparr>denoiseState = Some (0::nat), opt_frameSize = Some 1, opt_vadInterval = Some 10\<rparr>"
  let ?cs = "[(replicate 13 (Num 1), replicate 13 (Num 9)), (replicate 12 (Num 2), replicate 12 (Num 9))]"
  have c: "construct (Some ?opts) = Inr (fresh 0 1 10)"
    using construct_fresh[of 1 "0::nat" 10] by simp
  have d: "denoiseState ?opts \<noteq> None" by simp
  have F: "0 < frameSize (fresh (0::nat) 1 10)" by (simp add: fresh_def)
  have v1: "opt_vadInterval ?opts = Some 10" by simp
  have v2: "(0::int) < 10" by simp
  note r = vad_posted_every_interval [OF c d F v1 v2, of numbering ?cs]
  have e: "map_option (map_sum id (map posted)) (run numbering (fresh 0 1 10) ?cs) = Some (Inr [[10], [20]])"
    by code_simp
  have s: "frame_scores numbering (fresh 0 1 10) (replicate 13 (Num 1) @ replicate 12 (Num 2)) 25
     = map real [1 ..< 26]"
    by code_simp
  show ?thesis by (intro conjI) (fact c d F v1 v2 r e s)+
qed

lemma in_place_same_length: "length ys = length fr \<Longrightarrow> in_place fr ys = ys"
  by (simp add: in_place_def)

lemma denoise_frame_recovered: "denoise_frame (recovered pf) s fr = denoise_frame pf s fr"
  by (auto simp: denoise_frame_def recovered_def in_place_same_length
      split: option.splits prod.splits pf_result.splits)

lemma denoise_frames_recovered: "denoise_frames (recovered pf) s frs = denoise_frames pf s frs"
  by (induction frs arbitrary: s) (simp_all add: denoise_frame_recovered)

lemma call_result_recovered: "call_result (recovered pf) p x o0 os = call_result pf p x o0 os"
  by (simp add: call_result_def denoise_frames_recovered)

text \<open>
  Claim C5, as amended. For a processor with a transform and a positive frame
  size, a call returns whatever the transform throws. In the iteration in which
  \<^verbatim>\<open>processFrame\<close> throws, the samples copied to the output are those of the
  frame as it was in the buffer, NaN written as 0 (the copy is
  \<^verbatim>\<open>this.buf[i] || 0\<close>), the score is 0, and the buffer, the counter and the
  output index advance as for any frame. The call is the call of the transform
  that returns these frames itself with the score 0, so every other frame is
  handled as if nothing had failed.
\<close>

theorem transform_failure_recovered:
  fixes p :: "'d processor"
  assumes wf: "well_formed p" and F: "0 < frameSize p" and st: "state p = Some d"
  shows "(\<exists>r. process pf p (Some (x # xs)) (Some (o0 # os)) = Some (Inr r)) \<and>
         process pf p (Some (x # xs)) (Some (o0 # os))
           = process (recovered pf) p (Some (x # xs)) (Some (o0 # os)) \<and>
         (well_formed (proc ls) \<and> loop_guard ls \<and> state (proc ls) = Some d0 \<and>
          pf d0 (take (frameSize (proc ls)) (buf (proc ls))) = (d1, Throws) \<longrightarrow>
          loop_body pf ls =
            \<lparr>proc = (proc ls)\<lparr>state := Some d1,
                               buf := drop (frameSize (proc ls)) (buf (proc ls)),
                               work := map or_zero (take (frameSize (proc ls)) (buf (proc ls))),
                               frameCounter := Suc (frameCounter (proc ls))\<rparr>,
             outCh0 = take (outIndex ls) (outCh0 ls)
                      @ take (length (outCh0 ls) - outIndex ls)
                          (map or_zero (take (frameSize (proc ls)) (buf (proc ls))))
                      @ drop (outIndex ls + frameSize (proc ls)) (outCh0 ls),
             outIndex = min (outIndex ls + frameSize (proc ls)) (length (outCh0 ls)),
             port = port ls @ (if js_rem (int (Suc (frameCounter (proc ls)))) (vadInterval (proc ls)) = Some 0
                               then [0] else [])\<rparr>)"
proof -
  have sn: "state p \<noteq> None" using st by simp
  have a: "process pf p (Some (x # xs)) (Some (o0 # os)) = Some (Inr (call_result pf p x o0 os))"
    by (rule process_call_result[OF wf F sn])
  have b: "process (recovered pf) p (Some (x # xs)) (Some (o0 # os))
      = Some (Inr (call_result (recovered pf) p x o0 os))"
    by (rule process_call_result[OF wf F sn])
  have c: "loop_body pf ls =
            \<lparr>proc = (proc ls)\<lparr>state := Some d1,
                               buf := drop (frameSize (proc ls)) (buf (proc ls)),
                               work := map or_zero (take (frameSize (proc ls)) (buf (proc ls))),
                               frameCounter := Suc (frameCounter (proc ls))\<rparr>,
             outCh0 = take (outIndex ls) (outCh0 ls)
                      @ take (length (outCh0 ls) - outIndex ls)
                          (map or_zero (take (frameSize (proc ls)) (buf (proc ls))))
                      @ drop (outIndex ls + frameSize (proc ls)) (outCh0 ls),
             outIndex = min (outIndex ls + frameSize (proc ls)) (length (outCh0 ls)),
             port = port ls @ (if js_rem (int (Suc (frameCounter (proc ls)))) (vadInterval (proc ls)) = Some 0
                               then [0] else [])\<rparr>"
    if h: "well_formed (proc ls)" "loop_guard ls" "state (proc ls) = Some d0"
      "pf d0 (take (frameSize (proc ls)) (buf (proc ls))) = (d1, Throws)"
  proof -
    have "denoise_frame pf (state (proc ls)) (take (frameSize (proc ls)) (buf (proc ls)))
        = (Some d1, map or_zero (take (frameSize (proc ls)) (buf (proc ls))), 0)"
      using h(3,4) by (simp add: denoise_frame_def)
    from loop_body_frame[OF h(1,2) this] show ?thesis .
  qed
  show ?thesis using a b c call_result_recovered[of pf p x o0 os] by simp
qed

text \<open>
  The theorem at three frames of two samples whose second makes the transform
  throw: the output has the first and third frame negated and the second as it
  was fed, its NaN as 0, and the scores posted are 0.9, 0 and 0.9.
\<close>

theorem transform_failure_recovered_witness:
  "well_formed (fresh (0::nat) 2 1) \<and> 0 < frameSize (fresh (0::nat) 2 1) \<and>
   state (fresh (0::nat) 2 1) = Some 0 \<and>
   process negating (fresh 0 2 1) (Some [[Num 1, Num 2, Num 3, NaN, Num 5, Num 6]])
       (Some [[Num 9, Num 9, Num 9, Num 9, Num 9, Num 9]])
     = process (recovered negating) (fresh 0 2 1) (Some [[Num 1, Num 2, Num 3, NaN, Num 5, Num 6]])
       (Some [[Num 9, Num 9, Num 9, Num 9, Num 9, Num 9]]) \<and>
   process negating (fresh 0 2 1) (Some [[Num 1, Num 2, Num 3, NaN, Num 5, Num 6]])
       (Some [[Num 9, Num 9, Num 9, Num 9, Num 9, Num 9]])
     = Some (Inr \<lparr>processor_after =
                    \<lparr>state = Some 3, frameSize = 2, vadInterval = 1, buf = [],
                       work = [Num (- 5), Num (- 6)], frameCounter = 3\<rparr>,
                  output_after = Some [[Num (- 1), Num (- 2), Num 3, Num 0, Num (- 5), Num (- 6)]],
                  posted = [0.9, 0, 0.9], written = 6\<rparr>) \<and>
   loop_body negating
     \<lparr>proc = (fresh 1 2 1)\<lparr>buf := [Num 3, NaN, Num 5], frameCounter := 1\<rparr>,
      outCh0 = [Num (- 1), Num 9, Num 9], outIndex = 1, port = [0.9]\<rparr>
     = \<lparr>proc = \<lparr>state = Some 2, frameSize = 2, vadInterval = 1, buf = [Num 5],
                 work = [Num 3, Num 0], frameCounter = 2\<rparr>,
        outCh0 = [Num (- 1), Num 3, Num 0], outIndex = 3, port = [0.9, 0]\<rparr>"
proof -
  let ?p = "fresh (0::nat) 2 1"
  let ?ls = "\<lparr>proc = (fresh (1::nat) 2 1)\<lparr>buf := [Num 3, NaN, Num 5], frameCounter := 1\<rparr>,
      outCh0 = [Num (- 1), Num 9, Num 9], outIndex = 1, port = [0.9]\<rparr>"
  have wf: "well_formed ?p" by (simp add: well_formed_def fresh_def)
  have F: "0 < frameSize ?p" by (simp add: fresh_def)
  have st: "state ?p = Some 0" by (simp add: fresh_def)
  note r = transform_failure_recovered [OF wf F st, of negating
      "[Num 1, Num 2, Num 3, NaN, Num 5, Num 6]" "[]" "[Num 9, Num 9, Num 9, Num 9, Num 9, Num 9]" "[]"
      ?ls 1 2]
  have h: "well_formed (proc ?ls) \<and> loop_guard ?ls \<and> state (proc ?ls) = Some 1 \<and>
      negating 1 (take (frameSize (proc ?ls)) (buf (proc ?ls))) = (2, Throws)"
    by (simp add: well_formed_def fresh_def loop_guard_def negating_def)
  have e: "process negating ?p (Some [[Num 1, Num 2, Num 3, NaN, Num 5, Num 6]])
       (Some [[Num 9, Num 9, Num 9, Num 9, Num 9, Num 9]])
     = Some (Inr \<lparr>processor_after =
                    \<lparr>state = Some 3, frameSize = 2, vadInterval = 1, buf = [],
                       work = [Num (- 5), Num (- 6)], frameCounter = 3\<rparr>,
                  output_after = Some [[Num (- 1), Num (- 2), Num 3, Num 0, Num (- 5), Num (- 6)]],
                  posted = [0.9, 0, 0.9], written = 6\<rparr>)"
    by code_simp
  have l: "loop_body negating ?ls
     = \<lparr>proc = \<lparr>state = Some 2, frameSize = 2, vadInterval = 1, buf = [Num 5],
                 work = [Num 3, Num 0], frameCounter = 2\<rparr>,
        outCh0 = [Num (- 1), Num 3, Num 0], outIndex = 3, port = [0.9, 0]\<rparr>"
    using mp[OF conjunct2[OF conjunct2[OF r]] h]
    by (simp add: fresh_def js_rem_def)
  show ?thesis by (intro conjI) (fact wf F st conjunct1[OF conjunct2[OF r]] e l)+
qed

text \<open>
  The claim as it was stated fails on a frame that holds NaN: the output receives
  0, not the sample of the input.
\<close>

theorem transform_failure_counterexample:
  "process always_failing (fresh () 1 10) (Some [[NaN]]) (Some [[Num 9]]) =
     Some (Inr \<lparr>processor_after = \<lparr>state = Some (), frameSize = 1, vadInterval = 10, buf = [],
                                   work = [Num 0], frameCounter = 1\<rparr>,
                output_after = Some [[Num 0]], posted = [], written = 1\<rparr>) \<and>
   [Num 0] \<noteq> [NaN]"
  by code_simp












section \<open>The speaking state of a member\<close>

text \<open>
  The loop over the members applies \<open>member_tick\<close> to every entry, with the RMS of
  its reading; a reading of silence (all bytes 128) has the RMS 0.
\<close>

lemma computeRms_silence: "0 < n \<Longrightarrow> computeRms (replicate n 128) = 0"
proof -
  have "foldl (\<lambda>sum b. sum + ((real b - 128) / 128) * ((real b - 128) / 128)) a (replicate n 128) = a" for a
    by (induction n arbitrary: a) simp_all
  then show ?thesis by (simp add: computeRms_def)
qed

lemma audioLevelLoop_entry:
  "map_of (fst (audioLevelLoop lm vad reading es)) m =
     map_option (\<lambda>obj. fst (member_tick lm vad m (computeRms (reading m)) obj)) (map_of es m)"
  by (induction es) (auto simp: case_prod_beta Let_def)

lemma audioLevelLoop_events:
  "snd (audioLevelLoop lm vad reading es) =
     concat (map (\<lambda>(m, obj). snd (member_tick lm vad m (computeRms (reading m)) obj)) es)"
  by (induction es) (auto simp: case_prod_beta Let_def)

lemma foldl_add_zeros: "set h \<subseteq> {0} \<Longrightarrow> foldl (\<lambda>a b. a + b) (a::real) h = a"
  by (induction h arbitrary: a) auto

lemma average_zeros: "set h \<subseteq> {0} \<Longrightarrow> average h = 0"
  by (simp add: average_def foldl_add_zeros)

lemma push_history_zeros: "set h \<subseteq> {0} \<Longrightarrow> set (push_history h 0) \<subseteq> {0}"
  by (cases h) (auto simp: push_history_def Let_def)

lemma member_tick_history:
  "history (fst (member_tick lm vad m rms obj)) = push_history (history obj) rms"
  by (simp add: member_tick_def Let_def)

lemma member_tick_speaking:
  "speaking (fst (member_tick lm vad m rms obj)) =
     (let avg = average (push_history (history obj) rms);
          next1 = (if \<not> speaking obj \<and> avg \<ge> speakingThresholdOn then True
                   else if speaking obj \<and> avg < speakingThresholdOff then False
                   else speaking obj)
      in next1 \<or> (lm = Some m \<and> vad \<ge> vadSpeakingThreshold))"
  by (auto simp: member_tick_def Let_def)

lemma member_tick_events:
  "snd (member_tick lm vad m rms obj) =
     (if speaking (fst (member_tick lm vad m rms obj)) \<noteq> speaking obj
      then [(m, speaking (fst (member_tick lm vad m rms obj)))] else [])"
  by (simp add: member_tick_def Let_def)

lemma member_run_Cons_take:
  "fst (member_run lm m (take (Suc n) ((rms, vad) # ts)) obj) =
   fst (member_run lm m (take n ts) (fst (member_tick lm vad m rms obj)))"
  by (simp add: case_prod_beta Let_def)

lemma member_run_changes:
  "snd (member_run lm m ts obj) =
     map (\<lambda>n. (m, speaking (fst (member_run lm m (take (Suc n) ts) obj))))
       (filter (\<lambda>n. speaking (fst (member_run lm m (take (Suc n) ts) obj))
                      \<noteq> speaking (fst (member_run lm m (take n ts) obj)))
          [0..<length ts])"
proof (induction ts arbitrary: obj)
  case Nil
  then show ?case by simp
next
  case (Cons t ts)
  obtain rms vad where t: "t = (rms, vad)" by (cases t)
  let ?o1 = "fst (member_tick lm vad m rms obj)"
  have up: "[0..<length (t # ts)] = 0 # map Suc [0..<length ts]"
    by (simp add: upt_conv_Cons map_Suc_upt del: upt_Suc)
  have one: "fst (member_run lm m (take (Suc 0) (t # ts)) obj) = ?o1"
    using t by (simp add: case_prod_beta Let_def)
  have more: "fst (member_run lm m (take (Suc n) (t # ts)) obj) = fst (member_run lm m (take n ts) ?o1)" for n
    unfolding t by (rule member_run_Cons_take)
  have zero: "fst (member_run lm m (take 0 (t # ts)) obj) = obj" by simp
  have "snd (member_run lm m (t # ts) obj) = snd (member_tick lm vad m rms obj) @ snd (member_run lm m ts ?o1)"
    using t by (simp add: case_prod_beta Let_def)
  also have "\<dots> = (if speaking ?o1 \<noteq> speaking obj then [(m, speaking ?o1)] else [])
      @ map (\<lambda>n. (m, speaking (fst (member_run lm m (take (Suc n) ts) ?o1))))
       (filter (\<lambda>n. speaking (fst (member_run lm m (take (Suc n) ts) ?o1))
                      \<noteq> speaking (fst (member_run lm m (take n ts) ?o1)))
          [0..<length ts])"
    unfolding Cons.IH[of ?o1] member_tick_events[of lm vad m rms obj] ..
  also have "\<dots> = map (\<lambda>n. (m, speaking (fst (member_run lm m (take (Suc n) (t # ts)) obj))))
       (filter (\<lambda>n. speaking (fst (member_run lm m (take (Suc n) (t # ts)) obj))
                      \<noteq> speaking (fst (member_run lm m (take n (t # ts)) obj)))
          [0..<length (t # ts)])"
    unfolding up by (simp add: filter_map comp_def more del: take_Suc_Cons)
  finally show ?case .
qed


text \<open>
  Claim C7. For every member and every starting state, ticks at which the mean of
  the history is one value strictly between \<open>speakingThresholdOff\<close> and
  \<open>speakingThresholdOn\<close>, and at which the VAD score does not promote (the member
  speaks already, or is not the local member, or the scores are below
  \<open>vadSpeakingThreshold\<close>), leave the speaking state as it was and call
  \<^verbatim>\<open>updateSpeakingVisual\<close> at no tick.
\<close>

theorem dead_zone_keeps_state:
  assumes held: "avg_held c (history obj) (map fst ts)"
    and c: "speakingThresholdOff < c" "c < speakingThresholdOn"
    and novad: "speaking obj \<or> lm \<noteq> Some m \<or> list_all (\<lambda>t. snd t < vadSpeakingThreshold) ts"
  shows "speaking (fst (member_run lm m ts obj)) = speaking obj \<and> snd (member_run lm m ts obj) = []"
  using held novad
proof (induction ts arbitrary: obj)
  case Nil
  then show ?case by simp
next
  case (Cons t ts)
  obtain rms vad where t: "t = (rms, vad)" by (cases t)
  let ?o1 = "fst (member_tick lm vad m rms obj)"
  from Cons.prems(1) t have avg: "average (push_history (history obj) rms) = c"
    and held': "avg_held c (push_history (history obj) rms) (map fst ts)" by simp_all
  have sp: "speaking ?o1 = speaking obj"
    using avg c Cons.prems(2) t by (auto simp: member_tick_speaking Let_def)
  have ev: "snd (member_tick lm vad m rms obj) = []"
    using sp by (simp add: member_tick_events)
  have "speaking (fst (member_run lm m ts ?o1)) = speaking ?o1 \<and> snd (member_run lm m ts ?o1) = []"
    using held' Cons.prems(2) sp by (intro Cons.IH) (auto simp: member_tick_history)
  then show ?case using sp ev t by (simp add: case_prod_beta Let_def)
qed

text \<open>
  The theorem at six ticks with the RMS 0.03: for the local member, quiet, with
  scores below the threshold (the sixth tick drops the oldest value of the
  history), and for a remote member who speaks.
\<close>

theorem dead_zone_keeps_state_witness:
  "avg_held 0.03 (history initial_entry)
     (map fst ([(0.03, 0.1), (0.03, 0), (0.03, 0.5), (0.03, 0), (0.03, 0), (0.03, 0.2)]
               :: (real \<times> real) list)) \<and>
   speakingThresholdOff < 0.03 \<and> 0.03 < speakingThresholdOn \<and>
   \<not> speaking (fst (member_run (Some ''local'') ''local''
                      [(0.03, 0.1), (0.03, 0), (0.03, 0.5), (0.03, 0), (0.03, 0), (0.03, 0.2)]
                      initial_entry)) \<and>
   snd (member_run (Some ''local'') ''local''
          [(0.03, 0.1), (0.03, 0), (0.03, 0.5), (0.03, 0), (0.03, 0), (0.03, 0.2)]
          initial_entry) = [] \<and>
   speaking (fst (member_run (Some ''local'') ''remote'' [(0.03, 0.9), (0.03, 0.9)]
                    \<lparr>history = [0.03], speaking = True\<rparr>))"
proof -
  let ?ts = "[(0.03, 0.1), (0.03, 0), (0.03, 0.5), (0.03, 0), (0.03, 0), (0.03, 0.2)] :: (real \<times> real) list"
  have h1: "avg_held 0.03 (history initial_entry) (map fst ?ts)"
    by code_simp
  have c1: "speakingThresholdOff < 0.03" and c2: "0.03 < speakingThresholdOn"
    by (simp_all add: speakingThresholdOff_def speakingThresholdOn_def)
  have v1: "speaking initial_entry \<or> Some ''local'' \<noteq> Some ''local''
              \<or> list_all (\<lambda>t. snd t < vadSpeakingThreshold) ?ts"
    by code_simp
  have h2: "avg_held 0.03 (history \<lparr>history = [0.03], speaking = True\<rparr>)
              (map fst ([(0.03, 0.9), (0.03, 0.9)] :: (real \<times> real) list))"
    by code_simp
  have q: "\<not> speaking initial_entry" by (simp add: initial_entry_def)
  have r1: "speaking (fst (member_run (Some ''local'') ''local'' ?ts initial_entry)) = speaking initial_entry
            \<and> snd (member_run (Some ''local'') ''local'' ?ts initial_entry) = []"
    by (rule dead_zone_keeps_state [OF h1 c1 c2 v1])
  have r2: "speaking (fst (member_run (Some ''local'') ''remote'' [(0.03, 0.9), (0.03, 0.9)]
                    \<lparr>history = [0.03], speaking = True\<rparr>)) = speaking \<lparr>history = [0.03], speaking = True\<rparr>
            \<and> snd (member_run (Some ''local'') ''remote'' [(0.03, 0.9), (0.03, 0.9)]
                    \<lparr>history = [0.03], speaking = True\<rparr>) = []"
    by (rule dead_zone_keeps_state [OF h2 c1 c2]) simp
  have r2': "speaking (fst (member_run (Some ''local'') ''remote'' [(0.03, 0.9), (0.03, 0.9)]
                    \<lparr>history = [0.03], speaking = True\<rparr>))"
    using conjunct1[OF r2] by (simp only: speaker_entry.simps)
  have a: "\<not> speaking (fst (member_run (Some ''local'') ''local'' ?ts initial_entry))"
    unfolding conjunct1[OF r1] by (fact q)
  have b: "snd (member_run (Some ''local'') ''local'' ?ts initial_entry) = []"
    using r1 by (rule conjunct2)
  show ?thesis by (intro conjI) (fact h1 c1 c2 a b r2')+
qed

text \<open>
  Claim C8. \<^verbatim>\<open>updateSpeakingVisual\<close> is called at a tick exactly when the state
  decided at that tick differs from the state before it, with the new state: the
  calls of a sequence of ticks are its changes of state, and a sequence in which
  the state stays what it was calls it at no tick.
\<close>

theorem notify_only_on_change:
  "snd (member_tick lm vad m rms obj) =
     (if speaking (fst (member_tick lm vad m rms obj)) \<noteq> speaking obj
      then [(m, speaking (fst (member_tick lm vad m rms obj)))] else []) \<and>
   snd (member_run lm m ts obj) =
     map (\<lambda>n. (m, speaking (fst (member_run lm m (take (Suc n) ts) obj))))
       (filter (\<lambda>n. speaking (fst (member_run lm m (take (Suc n) ts) obj))
                      \<noteq> speaking (fst (member_run lm m (take n ts) obj)))
          [0..<length ts]) \<and>
   (list_all (\<lambda>n. speaking (fst (member_run lm m (take n ts) obj)) = speaking obj)
        [0..<Suc (length ts)]
      \<longrightarrow> snd (member_run lm m ts obj) = [])"
proof -
  have "snd (member_run lm m ts obj) = []"
    if "list_all (\<lambda>n. speaking (fst (member_run lm m (take n ts) obj)) = speaking obj)
        [0..<Suc (length ts)]"
  proof -
    from that have "speaking (fst (member_run lm m (take n ts) obj)) = speaking obj"
      if "n \<le> length ts" for n using that by (simp add: list_all_iff del: upt_Suc)
    then have "filter (\<lambda>n. speaking (fst (member_run lm m (take (Suc n) ts) obj))
                      \<noteq> speaking (fst (member_run lm m (take n ts) obj))) [0..<length ts] = []"
      by (simp add: filter_empty_conv del: take_Suc)
    then show ?thesis by (subst member_run_changes) simp
  qed
  then show ?thesis using member_tick_events[of lm vad m rms obj] member_run_changes[of lm m ts obj]
    by blast
qed

text \<open>
  The theorem at ticks of the local member: loud for two ticks, then silent.
  The state stays Speaking over the first two ticks from a speaking start, which
  calls nothing; from a quiet start seven ticks call twice, at the first tick and
  at the tick where the mean falls below \<open>speakingThresholdOff\<close>.
\<close>

theorem notify_only_on_change_witness:
  "list_all (\<lambda>n. speaking (fst (member_run (Some ''local'') ''local'' (take n [(0.5, 0), (0.5, 0)])
                                  \<lparr>history = [0.5], speaking = True\<rparr>))
                  = speaking \<lparr>history = [0.5], speaking = True\<rparr>)
      [0..<Suc (length ([(0.5, 0), (0.5, 0)] :: (real \<times> real) list))] \<and>
   snd (member_run (Some ''local'') ''local'' [(0.5, 0), (0.5, 0)]
          \<lparr>history = [0.5], speaking = True\<rparr>) = [] \<and>
   snd (member_run (Some ''local'') ''local'' [(0.5, 0), (0.5, 0), (0, 0), (0, 0), (0, 0), (0, 0), (0, 0)]
          initial_entry) = [(''local'', True), (''local'', False)]"
proof -
  let ?o = "\<lparr>history = [0.5], speaking = True\<rparr>"
  let ?ts = "[(0.5, 0), (0.5, 0)] :: (real \<times> real) list"
  have hyp: "list_all (\<lambda>n. speaking (fst (member_run (Some ''local'') ''local'' (take n ?ts) ?o))
                  = speaking ?o) [0..<Suc (length ?ts)]"
    by code_simp
  have a: "snd (member_run (Some ''local'') ''local'' ?ts ?o) = []"
    using conjunct2[OF conjunct2[OF notify_only_on_change [of "Some ''local''" 0 "''local''" 0 ?o ?ts]]] hyp
    by (rule mp)
  have b: "snd (member_run (Some ''local'') ''local'' [(0.5, 0), (0.5, 0), (0, 0), (0, 0), (0, 0), (0, 0), (0, 0)]
          initial_entry) = [(''local'', True), (''local'', False)]"
    by code_simp
  show ?thesis by (intro conjI) (fact hyp a b)+
qed

text \<open>
  Claim C3, as amended. For the local member with the RMS held at 0, a tick with a
  VAD score of at least \<open>vadSpeakingThreshold\<close> makes the state Speaking. At the
  next tick, with a score below the threshold and the RMS still 0, the RMS rule
  takes the state back to Quiet in that very tick, the mean 0 being below
  \<open>speakingThresholdOff\<close>. The VAD score itself only promotes: the state a tick
  decides is the state the RMS rule decides, or Speaking when the member is the
  local one and the score reaches the threshold.
\<close>

theorem vad_promotes_rms_demotes:
  assumes h: "set (history obj) \<subseteq> {0}"
    and v1: "v1 \<ge> vadSpeakingThreshold" and v2: "v2 < vadSpeakingThreshold"
  shows "speaking (fst (member_run (Some m) m [(0, v1)] obj)) \<and>
         \<not> speaking (fst (member_run (Some m) m [(0, v1), (0, v2)] obj)) \<and>
         (speaking (fst (member_tick lm vad m' rms obj')) \<longleftrightarrow>
            speaking (fst (member_tick None vad m' rms obj')) \<or>
            (lm = Some m' \<and> vad \<ge> vadSpeakingThreshold))"
proof -
  let ?o1 = "fst (member_tick (Some m) v1 m 0 obj)"
  have a0: "average (push_history (history obj) 0) = 0"
    using h by (intro average_zeros push_history_zeros)
  have s1: "speaking ?o1" using v1 by (simp add: member_tick_speaking Let_def)
  have h1: "set (history ?o1) \<subseteq> {0}" using h by (simp add: member_tick_history push_history_zeros)
  have a1: "average (push_history (history ?o1) 0) = 0"
    using h1 by (intro average_zeros push_history_zeros)
  have s2: "\<not> speaking (fst (member_tick (Some m) v2 m 0 ?o1))"
    using v2 s1 a1 by (simp add: member_tick_speaking Let_def speakingThresholdOff_def)
  have r1: "fst (member_run (Some m) m [(0, v1)] obj) = ?o1"
    by (simp add: case_prod_beta Let_def)
  have r2: "fst (member_run (Some m) m [(0, v1), (0, v2)] obj) = fst (member_tick (Some m) v2 m 0 ?o1)"
    by (simp add: case_prod_beta Let_def)
  have pr: "speaking (fst (member_tick lm vad m' rms obj')) \<longleftrightarrow>
            speaking (fst (member_tick None vad m' rms obj')) \<or>
            (lm = Some m' \<and> vad \<ge> vadSpeakingThreshold)"
    by (simp add: member_tick_speaking Let_def)
  show ?thesis unfolding r1 r2 using s1 s2 pr by blast
qed

text \<open>The theorem for a member just registered, with the scores 0.8 and 0.\<close>

theorem vad_promotes_rms_demotes_witness:
  "set (history initial_entry) \<subseteq> {0} \<and> 0.8 \<ge> vadSpeakingThreshold \<and> 0 < vadSpeakingThreshold \<and>
   speaking (fst (member_run (Some ''local'') ''local'' [(0, 0.8)] initial_entry)) \<and>
   \<not> speaking (fst (member_run (Some ''local'') ''local'' [(0, 0.8), (0, 0)] initial_entry))"
proof -
  have h: "set (history initial_entry) \<subseteq> {0}" by (simp add: initial_entry_def)
  have v1: "0.8 \<ge> vadSpeakingThreshold" and v2: "0 < vadSpeakingThreshold"
    by (simp_all add: vadSpeakingThreshold_def)
  note r = vad_promotes_rms_demotes [OF h v1 v2, of "''local''"]
  show ?thesis by (intro conjI) (fact h v1 v2 conjunct1[OF r] conjunct1[OF conjunct2[OF r]])+
qed

text \<open>
  The claim as it was stated fails: with the RMS at 0 and the score going from 0.8
  to 0, the second tick leaves the local member Quiet and calls
  \<^verbatim>\<open>updateSpeakingVisual\<close> with false.
\<close>

theorem vad_drop_reverts_counterexample:
  "member_run (Some ''local'') ''local'' [(0, 0.8), (0, 0)] initial_entry =
     (\<lparr>history = [0, 0], speaking = False\<rparr>, [(''local'', True), (''local'', False)])"
  by code_simp

end
